theory Spec2Isabelle
  imports Complex_Main "HOL-Library.AList" "HOL-Library.Extended_Nat"
begin

section \<open>Enumerations\<close>

text \<open>
  \<^verbatim>\<open>readystate.ts\<close>: the lifecycle phases of the transport.
\<close>

datatype ReadyState = Unsent | Opened | HeadersReceived | Loading | Done

text \<open>
  \<^verbatim>\<open>retryable.ts\<close>: the failure causes handed to the retry policy and to the caller.
\<close>

datatype XhrFailures = Status | Error | Abort | Timeout

text \<open>
  \<^verbatim>\<open>index.ts\<close>: the per-attempt latch. The source names its members
  \<^verbatim>\<open>None, Done, Error, Abort, Timeout\<close>; they are prefixed here because the
  same names are members of the other two enumerations.
\<close>

datatype Outcome = Outcome_None | Outcome_Done | Outcome_Error | Outcome_Abort | Outcome_Timeout

section \<open>Strings and numbers of the host language\<close>

text \<open>
  Strings are lists of 8-bit characters. The strings this client inspects are the response
  headers, which the transport hands over as a byte string (one code unit below 256 per
  byte), so nothing is lost.
\<close>

subsection \<open>Decimal rendering of integers\<close>

definition digit_char :: "nat \<Rightarrow> char" where
  "digit_char d = ''0123456789'' ! d"

fun show_nat :: "nat \<Rightarrow> string" where
  "show_nat n = (if n < 10 then [digit_char n] else show_nat (n div 10) @ [digit_char (n mod 10)])"

declare show_nat.simps [simp del]

text \<open>The text a template literal \<^verbatim>\<open>${i}\<close> inserts for an integral number \<open>i\<close>.\<close>

definition show_int :: "int \<Rightarrow> string" where
  "show_int i = (if i < 0 then ''-'' @ show_nat (nat (- i)) else show_nat (nat i))"

subsection \<open>Numbers\<close>

text \<open>
  A duration is a JavaScript number; it is modelled by the real number it denotes. The
  values \<^verbatim>\<open>NaN\<close> and \<^verbatim>\<open>Infinity\<close> have no counterpart. On the range the
  properties below speak about (\<open>0 \<le> d < 2^31\<close>) every operation of
  \<^verbatim>\<open>formatDuration\<close> is exact in double precision, apart from the final rendering
  by \<^verbatim>\<open>toPrecision\<close>, which the language defines on the exact value.
\<close>

definition trunc :: "real \<Rightarrow> int" where
  "trunc x = (if x \<ge> 0 then \<lfloor>x\<rfloor> else \<lceil>x\<rceil>)"

text \<open>
  \<^verbatim>\<open>x | 0\<close>: the operand is converted by \<^verbatim>\<open>ToInt32\<close>, that is truncated and
  reduced modulo \<open>2^32\<close> into the signed 32-bit range.
\<close>

definition ToInt32 :: "real \<Rightarrow> int" where
  "ToInt32 x = (let m = trunc x mod 2 ^ 32 in if m \<ge> 2 ^ 31 then m - 2 ^ 32 else m)"

text \<open>\<^verbatim>\<open>a % b\<close> on integral numbers: the remainder takes the sign of the dividend.\<close>

definition js_rem :: "int \<Rightarrow> int \<Rightarrow> int" where
  "js_rem a b = sgn a * (\<bar>a\<bar> mod \<bar>b\<bar>)"

definition pow10 :: "int \<Rightarrow> real" where
  "pow10 k = (if k \<ge> 0 then 10 ^ nat k else 1 / 10 ^ nat (- k))"

text \<open>For \<open>x > 0\<close>, the decimal exponent \<open>e\<close> with \<open>10^e \<le> x < 10^(e+1)\<close>.\<close>

definition exponent10 :: "real \<Rightarrow> int" where
  "exponent10 x =
     (if x \<ge> 1 then int (length (show_nat (nat \<lfloor>x\<rfloor>))) - 1
      else (let k = int (length (show_nat (nat \<lfloor>1 / x\<rfloor>)))
            in if 1 / x \<le> pow10 (k - 1) then - (k - 1) else - k))"

text \<open>
  \<^verbatim>\<open>Number.prototype.toPrecision(p)\<close> as the language standard defines it: \<open>n\<close> is the
  integer with \<open>p\<close> digits for which \<open>n * 10^(e-p+1)\<close> is nearest to \<open>x\<close> (the larger one
  on a tie); exponential notation is used when \<open>e < -6\<close> or \<open>e \<ge> p\<close>.
\<close>

definition toPrecision :: "real \<Rightarrow> nat \<Rightarrow> string" where
  "toPrecision x0 p =
     (let s = (if x0 < 0 then ''-'' else '''');
          x = \<bar>x0\<bar>
      in if x = 0 then s @ (if p = 1 then ''0'' else ''0.'' @ replicate (p - 1) (CHR ''0''))
         else
           (let e0 = exponent10 x;
                n0 = \<lfloor>x / pow10 (e0 - int p + 1) + 1 / 2\<rfloor>;
                n = (if n0 \<ge> 10 ^ p then 10 ^ (p - 1) else n0);
                e = (if n0 \<ge> 10 ^ p then e0 + 1 else e0);
                m = show_nat (nat n)
            in if e < - 6 \<or> e \<ge> int p
               then s @ (if p = 1 then m else take 1 m @ ''.'' @ drop 1 m)
                      @ ''e'' @ (if e \<ge> 0 then ''+'' else ''-'') @ show_nat (nat \<bar>e\<bar>)
               else if e = int p - 1 then s @ m
               else if e \<ge> 0 then s @ take (nat (e + 1)) m @ ''.'' @ drop (nat (e + 1)) m
               else s @ ''0.'' @ replicate (nat (- (e + 1))) (CHR ''0'') @ m))"

subsection \<open>String operations used on the response headers\<close>

text \<open>
  \<^verbatim>\<open>String.prototype.trim\<close> strips white space and line terminators; below 256 these
  are the code units 9 to 13, 32 and 160.
\<close>

definition isWhiteSpace :: "char \<Rightarrow> bool" where
  "isWhiteSpace c = (of_char c \<in> {9, 10, 11, 12, 13, 32, 160 :: nat})"

definition trim :: "string \<Rightarrow> string" where
  "trim s = rev (dropWhile isWhiteSpace (rev (dropWhile isWhiteSpace s)))"

text \<open>
  \<^verbatim>\<open>String.prototype.toLowerCase\<close> below 256: the letters A to Z, and the Latin-1
  capitals 192 to 222 except the multiplication sign 215, move up by 32.
\<close>

definition toLowerCase_char :: "char \<Rightarrow> char" where
  "toLowerCase_char c =
     (let n = of_char c :: nat
      in if (65 \<le> n \<and> n \<le> 90) \<or> (192 \<le> n \<and> n \<le> 222 \<and> n \<noteq> 215)
         then char_of (n + 32) else c)"

definition toLowerCase :: "string \<Rightarrow> string" where
  "toLowerCase s = map toLowerCase_char s"

definition CRLF :: string where
  "CRLF = [CHR 0x0D, CHR 0x0A]"

text \<open>\<^verbatim>\<open>s.split('\r\n')\<close>: always at least one piece; an empty string gives one empty piece.\<close>

fun split_crlf :: "string \<Rightarrow> string list" where
  "split_crlf [] = [[]]"
| "split_crlf [c] = [[c]]"
| "split_crlf (c # d # cs) =
     (if c = CHR 0x0D \<and> d = CHR 0x0A then [] # split_crlf cs
      else (case split_crlf (d # cs) of
              [] \<Rightarrow> [[c]]
            | x # xs \<Rightarrow> (c # x) # xs))"

text \<open>\<^verbatim>\<open>s.indexOf(c)\<close>: the first position of \<open>c\<close>, or \<open>-1\<close>.\<close>

fun indexOf :: "string \<Rightarrow> char \<Rightarrow> int" where
  "indexOf [] c = - 1"
| "indexOf (x # xs) c =
     (if x = c then 0 else (let i = indexOf xs c in if i < 0 then - 1 else i + 1))"

text \<open>
  \<^verbatim>\<open>s.slice(start, end)\<close>: a negative index counts from the end of the string, and both
  indices are clamped to the string; \<open>None\<close> stands for an omitted \<^verbatim>\<open>end\<close>.
\<close>

definition slice_index :: "string \<Rightarrow> int \<Rightarrow> nat" where
  "slice_index s i = (let len = int (length s) in nat (if i < 0 then max (len + i) 0 else min i len))"

definition slice :: "string \<Rightarrow> int \<Rightarrow> int option \<Rightarrow> string" where
  "slice s start end =
     (let from = slice_index s start;
          to = (case end of None \<Rightarrow> length s | Some e \<Rightarrow> slice_index s e)
      in take (to - from) (drop from s))"

section \<open>\<^verbatim>\<open>timer.ts\<close>: formatting a duration\<close>

definition oneMinute :: int where
  "oneMinute = 60"

definition oneHour :: int where
  "oneHour = 60 * 60"

definition formatDuration :: "real \<Rightarrow> string" where
  "formatDuration rawMilliseconds =
     (let wholeSeconds = ToInt32 (of_int (ToInt32 rawMilliseconds) / 1000);
          milliseconds = toPrecision (rawMilliseconds - of_int wholeSeconds * 1000) 6 @ ''ms''
      in if wholeSeconds < 1 then milliseconds
         else if wholeSeconds < oneMinute then show_int wholeSeconds @ ''sec '' @ milliseconds
         else if wholeSeconds < oneHour then
           (let minutes = ToInt32 (of_int wholeSeconds / of_int oneMinute);
                remainingSeconds = js_rem wholeSeconds oneMinute
            in show_int minutes @ ''min '' @ show_int remainingSeconds @ ''sec '' @ milliseconds)
         else
           (let hours = ToInt32 (of_int wholeSeconds / of_int oneHour);
                remainingMinutes = ToInt32 (of_int (js_rem wholeSeconds oneHour) / of_int oneMinute);
                remainingSeconds = ToInt32 (of_int (js_rem (js_rem wholeSeconds oneHour) oneMinute))
            in show_int hours @ ''hr '' @ show_int remainingMinutes @ ''min ''
                 @ show_int remainingSeconds @ ''sec '' @ milliseconds))"

text \<open>
  The formatter as the specification words it: whole seconds by truncation of \<open>ms / 1000\<close>,
  the remainder to six significant digits with the suffix \<^verbatim>\<open>ms\<close>, and for an hour or
  more the pattern \<^verbatim>\<open>{hr}min {min}sec {sec}sec {ms}\<close>.
\<close>

definition format_spec :: "real \<Rightarrow> string" where
  "format_spec ms =
     (let whole = trunc (ms / 1000);
          rest = toPrecision (ms - of_int whole * 1000) 6 @ ''ms''
      in if whole < 1 then rest
         else if whole < 60 then show_int whole @ ''sec '' @ rest
         else if whole < 3600 then
           show_int (whole div 60) @ ''min '' @ show_int (whole mod 60) @ ''sec '' @ rest
         else show_int (whole div 3600) @ ''min '' @ show_int (whole mod 3600 div 60) @ ''sec ''
                @ show_int (whole mod 60) @ ''sec '' @ rest)"

section \<open>\<^verbatim>\<open>retryable.ts\<close>: the default retry policy\<close>

text \<open>
  \<^verbatim>\<open>retryNetworkErrors = (xhr, cause) => cause === Timeout || cause === Error\<close>.
  The transport handle and the optional response are arguments of the callback type
  \<^verbatim>\<open>IsRetryableCallback\<close>; the default policy reads neither.
\<close>

definition retryNetworkErrors :: "'xhr \<Rightarrow> XhrFailures \<Rightarrow> 'res option \<Rightarrow> bool" where
  "retryNetworkErrors xhr cause res = (cause = Timeout \<or> cause = Error)"

section \<open>\<^verbatim>\<open>index.ts\<close>: the request id counter\<close>

text \<open>
  \<^verbatim>\<open>Number.MAX_SAFE_INTEGER\<close> is \<open>2^53 - 1\<close>. Up to \<open>2^53\<close> the increment of a
  JavaScript number is exact, so the counter is modelled by an \<open>int\<close>.
\<close>

definition MAX_SAFE_INTEGER :: int where
  "MAX_SAFE_INTEGER = 2 ^ 53 - 1"

text \<open>
  The first statements of \<^verbatim>\<open>_makeRequest\<close>:
  \<^verbatim>\<open>
  const requestId = nextRequestId++;
  if (requestId >= Number.MAX_SAFE_INTEGER) { nextRequestId = 1; }
  \<close>
  The function takes the value of the global and returns the allocated
  \<^verbatim>\<open>requestId\<close> with the new value of the global.
\<close>

definition allocRequestId :: "int \<Rightarrow> int \<times> int" where
  "allocRequestId next =
     (let requestId = next;
          next' = next + 1
      in (requestId, if requestId \<ge> MAX_SAFE_INTEGER then 1 else next'))"

text \<open>The value of the global after \<open>k\<close> attempts have been started one after the other.\<close>

fun counter_after :: "nat \<Rightarrow> int \<Rightarrow> int" where
  "counter_after 0 n = n"
| "counter_after (Suc k) n = counter_after k (snd (allocRequestId n))"

text \<open>The ids handed to \<open>k\<close> attempts started one after the other.\<close>

fun requestIds :: "nat \<Rightarrow> int \<Rightarrow> int list" where
  "requestIds 0 n = []"
| "requestIds (Suc k) n = fst (allocRequestId n) # requestIds k (snd (allocRequestId n))"

section \<open>\<^verbatim>\<open>index.ts\<close>: data\<close>

text \<open>
  A \<^verbatim>\<open>Headers\<close> object is a plain object with string values. It is kept as the
  association list of its own properties, with distinct keys, in the order in which the
  properties were created.
\<close>

type_synonym Headers = "(string \<times> string) list"

text \<open>
  An assignment \<^verbatim>\<open>obj[key] = value\<close> of a string to a property of an object literal
  creates the own property, or overwrites it where it stands. The one exception is the key
  \<^verbatim>\<open>__proto__\<close>: it is the accessor that the object inherits from
  \<^verbatim>\<open>Object.prototype\<close>, whose setter ignores a value that is neither an object nor
  \<^verbatim>\<open>null\<close>, so that the assignment of a string creates no property and changes nothing.
\<close>

definition assignProperty :: "string \<Rightarrow> string \<Rightarrow> Headers \<Rightarrow> Headers" where
  "assignProperty key v obj = (if key = ''__proto__'' then obj else AList.update key v obj)"

text \<open>
  An object spread \<^verbatim>\<open>{ ...obj }\<close> defines the properties it copies instead of assigning
  them, so that it copies an own property \<^verbatim>\<open>__proto__\<close> like any other.
\<close>

definition defineProperty :: "string \<Rightarrow> string \<Rightarrow> Headers \<Rightarrow> Headers" where
  "defineProperty key v obj = AList.update key v obj"

text \<open>
  \<^verbatim>\<open>Object.keys\<close> lists the keys that are array indices first, in ascending numeric
  order, and then the other keys in the order of their creation. An array index is the
  canonical decimal numeral of an integer below \<open>2^32 - 1\<close>: digits only, without a leading
  zero unless it is \<^verbatim>\<open>0\<close> itself.
\<close>

definition digit_value :: "char \<Rightarrow> nat" where
  "digit_value c = length (takeWhile (\<lambda>d. d \<noteq> c) ''0123456789'')"

definition parse_nat :: "string \<Rightarrow> nat" where
  "parse_nat s = foldl (\<lambda>n c. 10 * n + digit_value c) 0 s"

definition arrayIndex :: "string \<Rightarrow> nat option" where
  "arrayIndex s =
     (if s \<noteq> [] \<and> list_all (\<lambda>c. c \<in> set ''0123456789'') s
         \<and> (hd s \<noteq> CHR ''0'' \<or> s = ''0'') \<and> parse_nat s < 2 ^ 32 - 1
      then Some (parse_nat s) else None)"

definition Object_keys :: "Headers \<Rightarrow> string list" where
  "Object_keys obj =
     (let ks = map fst obj
      in sort_key (\<lambda>k. case arrayIndex k of None \<Rightarrow> 0 | Some n \<Rightarrow> n)
           (filter (\<lambda>k. arrayIndex k \<noteq> None) ks)
         @ filter (\<lambda>k. arrayIndex k = None) ks)"

text \<open>\<^verbatim>\<open>obj[key]\<close> for a key that \<^verbatim>\<open>Object.keys\<close> has listed.\<close>

definition getProperty :: "Headers \<Rightarrow> string \<Rightarrow> string" where
  "getProperty obj key = (case map_of obj key of None \<Rightarrow> ''undefined'' | Some v \<Rightarrow> v)"

text \<open>
  A request or response payload. Only a string can be falsy (the empty one); every other
  kind of payload is an object.
\<close>

datatype Body = StringBody string | ArrayBufferBody string | BlobBody string | ObjectBody string

definition truthy_body :: "Body option \<Rightarrow> bool" where
  "truthy_body b = (case b of None \<Rightarrow> False | Some (StringBody s) \<Rightarrow> s \<noteq> [] | Some _ \<Rightarrow> True)"

text \<open>
  The transport (\<^verbatim>\<open>XMLHttpRequest\<close>) is an external collaborator. The record holds what
  the client reads from it: \<^verbatim>\<open>readyState\<close>, \<^verbatim>\<open>status\<close>, \<^verbatim>\<open>response\<close>
  (\<open>None\<close> for \<^verbatim>\<open>null\<close>), \<^verbatim>\<open>responseText\<close> and the result of
  \<^verbatim>\<open>getAllResponseHeaders()\<close>.
\<close>

record XMLHttpRequest =
  readyState :: ReadyState
  status :: nat
  response :: "Body option"
  responseText :: string
  allResponseHeaders :: string

text \<open>
  \<^verbatim>\<open>interface Response\<close>. The field \<^verbatim>\<open>xhr\<close> is a reference to the transport of the
  attempt; a reference is the index of the attempt in the list of attempts. The optional
  field \<^verbatim>\<open>json\<close>, which the external JSON parser fills inside a
  \<^verbatim>\<open>try/catch\<close>, is left out: it has no influence on what happens to the request.
\<close>

record Response =
  res_xhr :: nat
  statusCode :: nat
  res_body :: Body
  res_headers :: Headers
  rawHeaders :: "(string \<times> string) list"

type_synonym IsRetryableCallback = "XMLHttpRequest \<Rightarrow> XhrFailures \<Rightarrow> Response option \<Rightarrow> bool"

text \<open>\<^verbatim>\<open>interface HttpRequestOptions\<close>; \<open>None\<close> is an absent field.\<close>

record HttpRequestOptions =
  body :: "Body option"
  headers :: "Headers option"
  timeout :: "int option"
  retries :: "int option"
  isRetryable :: "IsRetryableCallback option"
  slowThreshold :: "int option"
  responseType :: "string option"

text \<open>
  The fields of an \<^verbatim>\<open>HttpClient\<close> instance. Those that share a name with a field of
  the request options carry a prime.
\<close>

record HttpClient =
  hostname :: string
  port :: int
  ssl :: bool
  headers' :: Headers
  timeout' :: int
  retries' :: int
  isRetryable' :: IsRetryableCallback
  slowThreshold' :: int

text \<open>
  The constructor, with the fields of \<^verbatim>\<open>HttpClientParams\<close> as arguments:
  \<^verbatim>\<open>params.x || d\<close> is \<open>d\<close> when the field is absent or falsy.
\<close>

definition new_HttpClient ::
  "string \<Rightarrow> int \<Rightarrow> bool \<Rightarrow> Headers option \<Rightarrow> int option \<Rightarrow> int option
     \<Rightarrow> IsRetryableCallback option \<Rightarrow> int option \<Rightarrow> HttpClient" where
  "new_HttpClient h p s hs t r f sl =
     \<lparr> hostname = h, port = p, ssl = s,
       headers' = (case hs of None \<Rightarrow> [] | Some x \<Rightarrow> x),
       timeout' = (case t of None \<Rightarrow> 0 | Some x \<Rightarrow> x),
       retries' = (case r of None \<Rightarrow> 0 | Some x \<Rightarrow> x),
       isRetryable' = (case f of None \<Rightarrow> retryNetworkErrors | Some x \<Rightarrow> x),
       slowThreshold' = (case sl of None \<Rightarrow> 200 | Some x \<Rightarrow> if x = 0 then 200 else x) \<rparr>"

text \<open>
  What the executor hands to the caller's promise. A rejection is the object literal
  \<^verbatim>\<open>{ xhr, cause }\<close>, kept as its list of fields.
\<close>

datatype Value = XhrValue nat | CauseValue XhrFailures | ResponseValue Response

datatype Settlement = Resolve Response | Reject "(string \<times> Value) list"

definition carriesResponse :: "(string \<times> Value) list \<Rightarrow> bool" where
  "carriesResponse obj = list_ex (\<lambda>kv. case snd kv of ResponseValue r \<Rightarrow> True | _ \<Rightarrow> False) obj"

text \<open>The calls the executor makes on the transport of an attempt.\<close>

datatype XhrCall =
    Xhr_set_responseType string
  | Xhr_set_timeout int
  | Xhr_addEventListener string
  | Xhr_open string string
  | Xhr_setRequestHeader string string
  | Xhr_send Body

text \<open>
  The two callbacks the executor passes to \<^verbatim>\<open>setTimeout\<close>: \<^verbatim>\<open>onDone\<close> of an
  attempt, and \<^verbatim>\<open>doRetry\<close> of an attempt with the \<^verbatim>\<open>newParams\<close> it closes over.
  The delay is the number handed to \<^verbatim>\<open>setTimeout\<close>, which can be \<^verbatim>\<open>Infinity\<close>
  (\<open>\<infinity>\<close>).
\<close>

datatype Callback = Callback_onDone nat | Callback_doRetry nat HttpRequestOptions

record Timer =
  callback :: Callback
  delay :: enat

text \<open>
  One call of \<^verbatim>\<open>_makeRequest\<close>: its arguments and \<^verbatim>\<open>requestId\<close>, the latch
  \<^verbatim>\<open>outcome\<close>, the transport with the calls made on it, and the promise it returned. Of
  the promise the record keeps every call of \<^verbatim>\<open>resolve\<close> and \<^verbatim>\<open>reject\<close> in
  order (the first one settles it), and the attempt whose \<^verbatim>\<open>resolve\<close> and
  \<^verbatim>\<open>reject\<close> were attached to it by \<^verbatim>\<open>.then(resolve, reject)\<close>. The
  argument \<^verbatim>\<open>method\<close> carries a prime, the plain word being a keyword.
\<close>

record Attempt =
  requestId :: int
  attempt :: nat
  method' :: string
  path :: string
  params :: HttpRequestOptions
  outcome :: Outcome
  xhr :: XMLHttpRequest
  xhrCalls :: "XhrCall list"
  settled :: "Settlement list"
  chained :: "nat option"

record State =
  nextRequestId :: int
  attempts :: "Attempt list"
  timers :: "Timer list"

section \<open>\<^verbatim>\<open>index.ts\<close>: parsing the response headers\<close>

text \<open>
  The body of the \<^verbatim>\<open>forEach\<close> in \<^verbatim>\<open>onDone\<close>: the name is what precedes the first
  colon, the value what follows it, both trimmed. Without a colon \<^verbatim>\<open>indexOf\<close> gives
  \<open>-1\<close>, so the name is the line without its last character and the value the whole line.
\<close>

definition splitHeader :: "string \<Rightarrow> string \<times> string" where
  "splitHeader header =
     (let nameEndIndex = indexOf header (CHR '':'');
          name = trim (slice header 0 (Some nameEndIndex));
          value = trim (slice header (nameEndIndex + 1) None)
      in (name, value))"

text \<open>
  \<^verbatim>\<open>res.headers[name.toLowerCase()] = value; res.rawHeaders.push([ name, value ])\<close>,
  on the pair \<open>(res.headers, res.rawHeaders)\<close>. \<^verbatim>\<open>res.headers\<close> is an object literal
  and the first statement an assignment; \<^verbatim>\<open>res.rawHeaders\<close> is an array.
\<close>

definition addHeader :: "Headers \<times> (string \<times> string) list \<Rightarrow> string \<Rightarrow> Headers \<times> (string \<times> string) list" where
  "addHeader res header =
     (let (name, value) = splitHeader header
      in (assignProperty (toLowerCase name) value (fst res), snd res @ [(name, value)]))"

text \<open>
  \<^verbatim>\<open>xhr.getAllResponseHeaders().trim().split('\r\n').forEach(...)\<close>, starting from the
  empty \<^verbatim>\<open>headers\<close> and \<^verbatim>\<open>rawHeaders\<close>.
\<close>

definition parseHeaders :: "string \<Rightarrow> Headers \<times> (string \<times> string) list" where
  "parseHeaders blob = foldl addHeader ([], []) (split_crlf (trim blob))"

definition lowerName :: "string \<times> string \<Rightarrow> string \<times> string" where
  "lowerName nv = (toLowerCase (fst nv), snd nv)"

section \<open>\<^verbatim>\<open>index.ts\<close>: the executor\<close>

text \<open>
  The executor is event driven. Its state is the global counter, the attempts made so
  far, and the callbacks waiting in \<^verbatim>\<open>setTimeout\<close>. Every handler of the source is
  a function on this state; the environment decides which transport event or timer comes
  next. Logging and the phase timer are observers without influence on the state and are
  left out.
\<close>

subsection \<open>Promises\<close>

text \<open>
  A call of \<^verbatim>\<open>resolve\<close> or \<^verbatim>\<open>reject\<close> of attempt \<open>i\<close>. The call is recorded. If it
  is the first one, the promise settles with it, and the reaction attached by
  \<^verbatim>\<open>.then(resolve, reject)\<close> calls the same function of the attempt it is chained to.
  A chain always leads to an earlier attempt.
\<close>

function settle :: "nat \<Rightarrow> Settlement \<Rightarrow> Attempt list \<Rightarrow> Attempt list" where
  "settle i v ats =
     (if i < length ats then
        (let a = ats ! i;
             ats' = ats[i := a\<lparr>settled := settled a @ [v]\<rparr>]
         in case chained a of
              None \<Rightarrow> ats'
            | Some p \<Rightarrow> if settled a = [] \<and> p < i then settle p v ats' else ats')
      else ats)"
  by pat_completeness auto
termination
  by (relation "measure (\<lambda>(i, v, ats). i)") auto

declare settle.simps [simp del]

subsection \<open>Starting an attempt\<close>

definition new_XMLHttpRequest :: XMLHttpRequest where
  "new_XMLHttpRequest =
     \<lparr> readyState = Unsent, status = 0, response = None, responseText = '''',
       allResponseHeaders = '''' \<rparr>"

text \<open>
  \<^verbatim>\<open>{ ...this.headers, ...(params.headers || { }) }\<close>: the properties of the client's
  headers, then those of the request, a repeated key keeping its place and taking the
  later value.
\<close>

definition mergeHeaders :: "Headers \<Rightarrow> Headers option \<Rightarrow> Headers" where
  "mergeHeaders hs ps =
     foldl (\<lambda>acc kv. defineProperty (fst kv) (snd kv) acc)
       (foldl (\<lambda>acc kv. defineProperty (fst kv) (snd kv) acc) [] hs)
       (case ps of None \<Rightarrow> [] | Some x \<Rightarrow> x)"

text \<open>
  \<^verbatim>\<open>_makeRequest(method, path, params, attempt = 1)\<close>. The optional fourth argument is
  an \<open>option\<close>; the further argument \<open>chain\<close> is the attempt to whose \<^verbatim>\<open>resolve\<close> and
  \<^verbatim>\<open>reject\<close> the caller attaches the returned promise (\<open>None\<close> for a call from
  outside). The calls on the transport are listed in the order of the source: the
  response type, the listener of the phase timer, the timeout, the four listeners, \<^verbatim>\<open>open\<close>,
  the headers in the order of \<^verbatim>\<open>Object.keys\<close>, and \<^verbatim>\<open>send\<close> under the condition
  of the last statement.
\<close>

definition makeRequest ::
  "HttpClient \<Rightarrow> string \<Rightarrow> string \<Rightarrow> HttpRequestOptions \<Rightarrow> nat option \<Rightarrow> nat option
     \<Rightarrow> State \<Rightarrow> State" where
  "makeRequest this m p ps attempt_arg chain s =
     (let n = (case attempt_arg of None \<Rightarrow> 1 | Some k \<Rightarrow> k);
          ids = allocRequestId (nextRequestId s);
          t = (case timeout ps of None \<Rightarrow> timeout' this | Some x \<Rightarrow> x);
          scheme = (if ssl this then ''https://'' else ''http://'');
          url = scheme @ hostname this @ '':'' @ show_int (port this) @ p;
          hs = mergeHeaders (headers' this) (headers ps);
          calls =
            (case responseType ps of
               None \<Rightarrow> []
             | Some rt \<Rightarrow> if rt \<noteq> [] then [Xhr_set_responseType rt] else [])
            @ [Xhr_addEventListener ''readystatechange'']
            @ (if t \<noteq> 0 then [Xhr_set_timeout t] else [])
            @ [Xhr_addEventListener ''readystatechange'', Xhr_addEventListener ''error'',
               Xhr_addEventListener ''abort'', Xhr_addEventListener ''timeout'']
            @ [Xhr_open m url]
            @ map (\<lambda>header. Xhr_setRequestHeader header (getProperty hs header)) (Object_keys hs)
            @ (case body ps of
                 None \<Rightarrow> []
               | Some b \<Rightarrow>
                   if truthy_body (Some b) \<and> m \<noteq> ''GET'' \<and> m \<noteq> ''HEAD'' then [Xhr_send b] else [])
      in s\<lparr> nextRequestId := snd ids,
            attempts := attempts s @
              [\<lparr> requestId = fst ids, attempt = n, method' = m, path = p, params = ps,
                 outcome = Outcome_None, xhr = new_XMLHttpRequest, xhrCalls = calls,
                 settled = [], chained = chain \<rparr>] \<rparr>)"

text \<open>The public methods; all of them leave the fourth argument out.\<close>

definition request :: "HttpClient \<Rightarrow> string \<Rightarrow> string \<Rightarrow> HttpRequestOptions \<Rightarrow> State \<Rightarrow> State" where
  "request this m p ps s = makeRequest this m p ps None None s"

definition get :: "HttpClient \<Rightarrow> string \<Rightarrow> HttpRequestOptions \<Rightarrow> State \<Rightarrow> State" where
  "get this p ps s = makeRequest this ''GET'' p ps None None s"

definition post :: "HttpClient \<Rightarrow> string \<Rightarrow> HttpRequestOptions \<Rightarrow> State \<Rightarrow> State" where
  "post this p ps s = makeRequest this ''POST'' p ps None None s"

definition put :: "HttpClient \<Rightarrow> string \<Rightarrow> HttpRequestOptions \<Rightarrow> State \<Rightarrow> State" where
  "put this p ps s = makeRequest this ''PUT'' p ps None None s"

definition patch :: "HttpClient \<Rightarrow> string \<Rightarrow> HttpRequestOptions \<Rightarrow> State \<Rightarrow> State" where
  "patch this p ps s = makeRequest this ''PATCH'' p ps None None s"

definition delete :: "HttpClient \<Rightarrow> string \<Rightarrow> HttpRequestOptions \<Rightarrow> State \<Rightarrow> State" where
  "delete this p ps s = makeRequest this ''DELETE'' p ps None None s"

subsection \<open>The handlers of an attempt\<close>

text \<open>
  \<^verbatim>\<open>const backoff = (2 ** attempt) * 250\<close>, in double precision. A power of two is
  a double up to \<open>2^1023\<close>, and \<^verbatim>\<open>2 ** attempt\<close> is \<^verbatim>\<open>Infinity\<close> beyond that. The
  product of a power of two and 250 has eight significant bits, so it is exact when it is
  below \<open>2^1024\<close>; any larger one lies above every finite double and is rounded to
  \<^verbatim>\<open>Infinity\<close>. The attempt number is a natural number here: the public methods and
  \<^verbatim>\<open>doRetry\<close> leave it at 1, and only a subclass can pass another one.
\<close>

definition power_of_two :: "nat \<Rightarrow> enat" where
  "power_of_two n = (if n \<le> 1023 then enat (2 ^ n) else \<infinity>)"

definition backoff :: "nat \<Rightarrow> enat" where
  "backoff n =
     (case power_of_two n of
        enat p \<Rightarrow> if p * 250 < 2 ^ 1024 then enat (p * 250) else \<infinity>
      | \<infinity> \<Rightarrow> \<infinity>)"

text \<open>
  \<^verbatim>\<open>params.isRetryable == null ? this.isRetryable : params.isRetryable\<close> and
  \<^verbatim>\<open>params.retries == null ? this.retries : params.retries\<close>. A number is truthy
  when it is not zero.
\<close>

definition isRetryable_of :: "HttpClient \<Rightarrow> HttpRequestOptions \<Rightarrow> IsRetryableCallback" where
  "isRetryable_of this ps = (case isRetryable ps of None \<Rightarrow> isRetryable' this | Some f \<Rightarrow> f)"

definition retries_of :: "HttpClient \<Rightarrow> HttpRequestOptions \<Rightarrow> int" where
  "retries_of this ps = (case retries ps of None \<Rightarrow> retries' this | Some r \<Rightarrow> r)"

text \<open>
  \<^verbatim>\<open>retryIfPossible(xhr, cause, res?)\<close> of attempt \<open>i\<close>: with a non-zero budget and the
  consent of the policy it puts \<^verbatim>\<open>doRetry\<close> into \<^verbatim>\<open>setTimeout\<close>, otherwise it calls
  \<^verbatim>\<open>reject({ xhr, cause })\<close>.
\<close>

definition retryIfPossible :: "HttpClient \<Rightarrow> nat \<Rightarrow> XhrFailures \<Rightarrow> Response option \<Rightarrow> State \<Rightarrow> State" where
  "retryIfPossible this i cause res s =
     (let a = attempts s ! i;
          budget = retries_of this (params a)
      in if budget \<noteq> 0 \<and> isRetryable_of this (params a) (xhr a) cause res then
           (let newParams = (params a)\<lparr> retries := Some (budget - 1) \<rparr>
            in s\<lparr> timers := timers s @
                   [\<lparr> callback = Callback_doRetry i newParams, delay = backoff (attempt a) \<rparr>] \<rparr>)
         else
           s\<lparr> attempts :=
                settle i (Reject [(''xhr'', XhrValue i), (''cause'', CauseValue cause)]) (attempts s) \<rparr>)"

text \<open>
  \<^verbatim>\<open>doRetry = () => this._makeRequest(method, path, newParams).then(resolve, reject)\<close>,
  with \<^verbatim>\<open>method\<close>, \<^verbatim>\<open>path\<close>, \<^verbatim>\<open>resolve\<close> and \<^verbatim>\<open>reject\<close> those of attempt \<open>i\<close>.
\<close>

definition doRetry :: "HttpClient \<Rightarrow> nat \<Rightarrow> HttpRequestOptions \<Rightarrow> State \<Rightarrow> State" where
  "doRetry this i newParams s =
     (let a = attempts s ! i
      in makeRequest this (method' a) (path a) newParams None (Some i) s)"

definition onError :: "HttpClient \<Rightarrow> nat \<Rightarrow> State \<Rightarrow> State" where
  "onError this i s = retryIfPossible this i Error None s"

definition onAbort :: "HttpClient \<Rightarrow> nat \<Rightarrow> State \<Rightarrow> State" where
  "onAbort this i s = retryIfPossible this i Abort None s"

definition onTimeout :: "HttpClient \<Rightarrow> nat \<Rightarrow> State \<Rightarrow> State" where
  "onTimeout this i s = retryIfPossible this i Timeout None s"

text \<open>
  \<^verbatim>\<open>xhr.response || xhr.responseText\<close>. The transport refuses to give
  \<^verbatim>\<open>responseText\<close> (it throws) unless its response type is empty or \<^verbatim>\<open>text\<close>;
  \<open>None\<close> stands for that exception, which nothing in \<^verbatim>\<open>onDone\<close> catches.
\<close>

definition responseData :: "Attempt \<Rightarrow> Body option" where
  "responseData a =
     (if truthy_body (response (xhr a)) then response (xhr a)
      else (case responseType (params a) of
              None \<Rightarrow> Some (StringBody (responseText (xhr a)))
            | Some rt \<Rightarrow>
                if rt = [] \<or> rt = ''text'' then Some (StringBody (responseText (xhr a)))
                else None))"

text \<open>
  \<^verbatim>\<open>onDone\<close> of attempt \<open>i\<close>: nothing when the latch is set; otherwise it sets the latch,
  builds the response, and with a status of 400 or more goes to
  \<^verbatim>\<open>retryIfPossible\<close>, else calls \<^verbatim>\<open>resolve\<close>.
\<close>

definition onDone :: "HttpClient \<Rightarrow> nat \<Rightarrow> State \<Rightarrow> State" where
  "onDone this i s =
     (let a = attempts s ! i
      in if outcome a \<noteq> Outcome_None then s
         else
           (let s1 = s\<lparr> attempts := (attempts s)[i := a\<lparr> outcome := Outcome_Done \<rparr>] \<rparr>
            in case responseData a of
                 None \<Rightarrow> s1
               | Some data \<Rightarrow>
                   (let parsed = parseHeaders (allResponseHeaders (xhr a));
                        res = \<lparr> res_xhr = i, statusCode = status (xhr a), res_body = data,
                                res_headers = fst parsed, rawHeaders = snd parsed \<rparr>
                    in if statusCode res \<ge> 400 then retryIfPossible this i Status (Some res) s1
                       else s1\<lparr> attempts := settle i (Resolve res) (attempts s1) \<rparr>)))"

text \<open>\<^verbatim>\<open>onReadyStateChange\<close>: in the phase \<^verbatim>\<open>Done\<close>, \<^verbatim>\<open>setTimeout(onDone, 10)\<close>.\<close>

definition onReadyStateChange :: "nat \<Rightarrow> State \<Rightarrow> State" where
  "onReadyStateChange i s =
     (case readyState (xhr (attempts s ! i)) of
        Unsent \<Rightarrow> s
      | Opened \<Rightarrow> s
      | HeadersReceived \<Rightarrow> s
      | Loading \<Rightarrow> s
      | Done \<Rightarrow> s\<lparr> timers := timers s @ [\<lparr> callback = Callback_onDone i, delay = 10 \<rparr>] \<rparr>)"

subsection \<open>The environment\<close>

text \<open>The four event types the executor listens to.\<close>

datatype Event = Event_readystatechange | Event_error | Event_abort | Event_timeout

text \<open>
  What can happen next: a caller calls \<^verbatim>\<open>request\<close>; the transport of attempt \<open>i\<close>
  fires an event, its fields being as given at that moment; or the \<open>k\<close>-th waiting timer
  elapses.
\<close>

datatype Input =
    Call_request string string HttpRequestOptions
  | Dispatch nat Event XMLHttpRequest
  | Elapse nat

definition dispatch :: "HttpClient \<Rightarrow> nat \<Rightarrow> Event \<Rightarrow> XMLHttpRequest \<Rightarrow> State \<Rightarrow> State" where
  "dispatch this i ev x s =
     (if i < length (attempts s) then
        (let s' = s\<lparr> attempts := (attempts s)[i := (attempts s ! i)\<lparr> xhr := x \<rparr>] \<rparr>
         in case ev of
              Event_readystatechange \<Rightarrow> onReadyStateChange i s'
            | Event_error \<Rightarrow> onError this i s'
            | Event_abort \<Rightarrow> onAbort this i s'
            | Event_timeout \<Rightarrow> onTimeout this i s')
      else s)"

definition elapse :: "HttpClient \<Rightarrow> nat \<Rightarrow> State \<Rightarrow> State" where
  "elapse this k s =
     (if k < length (timers s) then
        (let s' = s\<lparr> timers := take k (timers s) @ drop (Suc k) (timers s) \<rparr>
         in case callback (timers s ! k) of
              Callback_onDone i \<Rightarrow> onDone this i s'
            | Callback_doRetry i newParams \<Rightarrow> doRetry this i newParams s')
      else s)"

fun step :: "HttpClient \<Rightarrow> State \<Rightarrow> Input \<Rightarrow> State" where
  "step this s (Call_request m p ps) = request this m p ps s"
| "step this s (Dispatch i ev x) = dispatch this i ev x s"
| "step this s (Elapse k) = elapse this k s"

definition run :: "HttpClient \<Rightarrow> State \<Rightarrow> Input list \<Rightarrow> State" where
  "run this s ins = foldl (step this) s ins"

definition initial :: State where
  "initial = \<lparr> nextRequestId = 1, attempts = [], timers = [] \<rparr>"

subsection \<open>Failing requests\<close>

text \<open>
  The inputs that bring attempt \<open>i\<close> to one call of \<^verbatim>\<open>retryIfPossible\<close> with a given
  cause: the event of the cause alone, or for \<^verbatim>\<open>Status\<close> the phase \<^verbatim>\<open>Done\<close>
  followed by the 10 ms timer of \<^verbatim>\<open>onDone\<close>. For \<^verbatim>\<open>Status\<close> this is what a reply
  with such a status brings about. For the other causes it is the event without the
  announcement of the phase \<^verbatim>\<open>Done\<close> that a transport sends ahead of it.
\<close>

fun failure_inputs :: "XhrFailures \<Rightarrow> nat \<Rightarrow> XMLHttpRequest \<Rightarrow> Input list" where
  "failure_inputs Error i x = [Dispatch i Event_error x]"
| "failure_inputs Abort i x = [Dispatch i Event_abort x]"
| "failure_inputs Timeout i x = [Dispatch i Event_timeout x]"
| "failure_inputs Status i x = [Dispatch i Event_readystatechange x, Elapse 0]"

text \<open>
  For the cause \<^verbatim>\<open>Status\<close> the transport must be in the phase \<^verbatim>\<open>Done\<close> with a
  status of 400 or more and a payload that can be read.
\<close>

definition shows_failure :: "XhrFailures \<Rightarrow> XMLHttpRequest \<Rightarrow> HttpRequestOptions \<Rightarrow> bool" where
  "shows_failure c x ps =
     (case c of
        Status \<Rightarrow> readyState x = Done \<and> 400 \<le> status x
                    \<and> (truthy_body (response x) \<or> responseType ps = None
                         \<or> responseType ps = Some [] \<or> responseType ps = Some ''text'')
      | _ \<Rightarrow> True)"

text \<open>
  Every attempt from attempt \<open>i\<close> on fails once with the same cause, and every pending
  retry timer elapses; \<open>r\<close> is the number of retries that are let through.
\<close>

fun failing_chain :: "XhrFailures \<Rightarrow> XMLHttpRequest \<Rightarrow> nat \<Rightarrow> nat \<Rightarrow> Input list" where
  "failing_chain c x i 0 = failure_inputs c i x"
| "failing_chain c x i (Suc r) = failure_inputs c i x @ [Elapse 0] @ failing_chain c x (Suc i) r"

subsection \<open>Example data\<close>

definition client0 :: HttpClient where
  "client0 = new_HttpClient ''example.org'' 443 True None None None None None"

definition params0 :: HttpRequestOptions where
  "params0 = \<lparr> body = Some (StringBody ''{}''), headers = None, timeout = None, retries = None,
               isRetryable = None, slowThreshold = None, responseType = None \<rparr>"

text \<open>The transport after a network error, and after a reply with status 503.\<close>

definition failed_xhr :: XMLHttpRequest where
  "failed_xhr = \<lparr> readyState = Done, status = 0, response = Some (StringBody []),
                  responseText = [], allResponseHeaders = [] \<rparr>"

definition unavailable_xhr :: XMLHttpRequest where
  "unavailable_xhr = \<lparr> readyState = Done, status = 503, response = Some (StringBody ''busy''),
                       responseText = ''busy'',
                       allResponseHeaders = ''Retry-After: 30'' @ CRLF \<rparr>"

subsection \<open>Well-formed states and inputs for one attempt\<close>

text \<open>
  The attempt a waiting callback belongs to. In a well-formed state every waiting callback
  and every chained promise points to an attempt that exists; the initial state is
  well-formed and every step keeps it so.
\<close>

definition owner :: "Callback \<Rightarrow> nat" where
  "owner cb = (case cb of Callback_onDone i \<Rightarrow> i | Callback_doRetry i newParams \<Rightarrow> i)"

definition points_inside :: "nat option \<Rightarrow> nat \<Rightarrow> bool" where
  "points_inside c n = (case c of None \<Rightarrow> True | Some i \<Rightarrow> i < n)"

definition wellformed :: "State \<Rightarrow> bool" where
  "wellformed s =
     (list_all (\<lambda>t. owner (callback t) < length (attempts s)) (timers s)
      \<and> list_all (\<lambda>a. points_inside (chained a) (length (attempts s))) (attempts s))"

text \<open>
  An input that is an event of the transport of attempt \<open>n\<close> on which a handler of the
  attempt acts: \<^verbatim>\<open>error\<close>, \<^verbatim>\<open>abort\<close>, \<^verbatim>\<open>timeout\<close>, or
  \<^verbatim>\<open>readystatechange\<close> in the phase \<^verbatim>\<open>Done\<close>.
\<close>

fun terminal_event_of :: "nat \<Rightarrow> Input \<Rightarrow> bool" where
  "terminal_event_of n (Dispatch i ev x) =
     (i = n \<and> (case ev of Event_readystatechange \<Rightarrow> readyState x = Done | _ \<Rightarrow> True))"
| "terminal_event_of n (Call_request m p ps) = False"
| "terminal_event_of n (Elapse k) = False"

text \<open>
  Attempt \<open>n\<close> is quiet: its promise is unsettled, no waiting callback belongs to it and
  no promise is chained to it.
\<close>

definition quiet :: "nat \<Rightarrow> State \<Rightarrow> bool" where
  "quiet n s =
     (n < length (attempts s) \<and> settled (attempts s ! n) = []
      \<and> n \<notin> set (map (\<lambda>t. owner (callback t)) (timers s))
      \<and> Some n \<notin> set (map chained (attempts s)))"

section \<open>Evaluation rules\<close>

lemmas number_eval = formatDuration_def format_spec_def toPrecision_def ToInt32_def trunc_def Let_def
  exponent10_def pow10_def show_int_def show_nat.simps digit_char_def oneMinute_def oneHour_def
  js_rem_def

lemmas header_eval = parseHeaders_def addHeader_def assignProperty_def splitHeader_def trim_def
  isWhiteSpace_def
  toLowerCase_def toLowerCase_char_def slice_def slice_index_def CRLF_def Let_def char_of_def bit_0

section \<open>The default retry policy\<close>

text \<open>
  C5. The default retryability predicate is true exactly for the causes
  \<^verbatim>\<open>XhrFailures.Error\<close> (transport error) and \<^verbatim>\<open>XhrFailures.Timeout\<close>, and false for
  \<^verbatim>\<open>Abort\<close> and \<^verbatim>\<open>Status\<close>, whatever the transport handle and the optional response.
\<close>

theorem retryNetworkErrors_default:
  "retryNetworkErrors xhr cause res = (cause \<in> {Error, Timeout})
   \<and> retryNetworkErrors xhr Error res \<and> retryNetworkErrors xhr Timeout res
   \<and> \<not> retryNetworkErrors xhr Abort res \<and> \<not> retryNetworkErrors xhr Status res"
  by (cases cause) (simp_all add: retryNetworkErrors_def)

section \<open>The request id counter\<close>

lemma counter_after_linear:
  "n + int k \<le> MAX_SAFE_INTEGER \<Longrightarrow> counter_after k n = n + int k"
proof (induction k arbitrary: n)
  case 0
  then show ?case by simp
next
  case (Suc k)
  from Suc.prems have "n < MAX_SAFE_INTEGER" by simp
  then have "snd (allocRequestId n) = n + 1" by (simp add: allocRequestId_def)
  moreover from Suc.prems have "(n + 1) + int k \<le> MAX_SAFE_INTEGER" by simp
  ultimately show ?case using Suc.IH [of "n + 1"] by simp
qed

lemma requestIds_linear:
  "n + int k \<le> MAX_SAFE_INTEGER + 1 \<Longrightarrow> requestIds k n = map (\<lambda>i. n + int i) [0..<k]"
proof (induction k arbitrary: n)
  case 0
  then show ?case by simp
next
  case (Suc k)
  show ?case
  proof (cases k)
    case 0
    then show ?thesis by (simp add: allocRequestId_def)
  next
    case (Suc j)
    with Suc.prems have lt: "n < MAX_SAFE_INTEGER" by simp
    then have a: "allocRequestId n = (n, n + 1)" by (simp add: allocRequestId_def)
    from Suc.prems have "(n + 1) + int k \<le> MAX_SAFE_INTEGER + 1" by simp
    then have "requestIds k (n + 1) = map (\<lambda>i. (n + 1) + int i) [0..<k]" by (rule Suc.IH)
    then show ?thesis using a
      by (simp add: upt_rec [of 0 "Suc k"] map_Suc_upt [symmetric] del: upt_Suc)
  qed
qed

text \<open>
  C9, as stated, fails: the counter does not wrap before an allocated id reaches
  \<^verbatim>\<open>Number.MAX_SAFE_INTEGER\<close>. Starting from 1, the attempt number \<open>2^53 - 1\<close> is
  given the id \<open>2^53 - 1\<close>, the ceiling itself; the guard compares the id just allocated,
  so the wrap comes one allocation later.
\<close>

theorem requestId_reaches_ceiling:
  "fst (allocRequestId (counter_after (2 ^ 53 - 2) 1)) = MAX_SAFE_INTEGER"
proof -
  have "counter_after (2 ^ 53 - 2) 1 = 1 + int (2 ^ 53 - 2)"
    by (rule counter_after_linear) (simp add: MAX_SAFE_INTEGER_def)
  then show ?thesis by (simp add: allocRequestId_def MAX_SAFE_INTEGER_def)
qed

text \<open>
  C9, amended. While the counter lies between 1 and \<^verbatim>\<open>Number.MAX_SAFE_INTEGER\<close>, an
  attempt is given the current value of the counter as its id, the id lies in the same
  range (the ceiling included), and the counter moves on by one, or back to 1 right after
  the ceiling itself has been handed out. Attempts started one after the other without
  passing the ceiling get consecutive, strictly increasing and therefore distinct ids.
  Every call of \<^verbatim>\<open>_makeRequest\<close>, the first attempt of a request or a retry, takes
  its id from the counter in this way.
\<close>

theorem allocRequestId_range:
  assumes "1 \<le> n" and "n \<le> MAX_SAFE_INTEGER"
  shows "fst (allocRequestId n) = n
       \<and> 1 \<le> fst (allocRequestId n) \<and> fst (allocRequestId n) \<le> MAX_SAFE_INTEGER
       \<and> snd (allocRequestId n) = (if n = MAX_SAFE_INTEGER then 1 else n + 1)
       \<and> 1 \<le> snd (allocRequestId n) \<and> snd (allocRequestId n) \<le> MAX_SAFE_INTEGER
       \<and> (\<forall>k. n + int k \<le> MAX_SAFE_INTEGER + 1 \<longrightarrow>
             requestIds k n = map (\<lambda>i. n + int i) [0..<k]
             \<and> distinct (requestIds k n) \<and> sorted (requestIds k n))
       \<and> requestId (last (attempts (makeRequest this m p ps a c s)))
           = fst (allocRequestId (nextRequestId s))
       \<and> nextRequestId (makeRequest this m p ps a c s) = snd (allocRequestId (nextRequestId s))"
proof -
  have d: "distinct (map (\<lambda>i. n + int i) [0..<k])" for k
    by (simp add: distinct_map inj_on_def)
  have s: "sorted (map (\<lambda>i. n + int i) [0..<k])" for k
    by (simp add: sorted_map)
  have ids: "fst (allocRequestId n) = n
       \<and> 1 \<le> fst (allocRequestId n) \<and> fst (allocRequestId n) \<le> MAX_SAFE_INTEGER
       \<and> snd (allocRequestId n) = (if n = MAX_SAFE_INTEGER then 1 else n + 1)
       \<and> 1 \<le> snd (allocRequestId n) \<and> snd (allocRequestId n) \<le> MAX_SAFE_INTEGER
       \<and> (\<forall>k. n + int k \<le> MAX_SAFE_INTEGER + 1 \<longrightarrow>
             requestIds k n = map (\<lambda>i. n + int i) [0..<k]
             \<and> distinct (requestIds k n) \<and> sorted (requestIds k n))"
    using assms d s by (auto simp: allocRequestId_def requestIds_linear)
  have "requestId (last (attempts (makeRequest this m p ps a c s)))
           = fst (allocRequestId (nextRequestId s))"
    and "nextRequestId (makeRequest this m p ps a c s) = snd (allocRequestId (nextRequestId s))"
    by (simp_all add: makeRequest_def Let_def)
  with ids show ?thesis by blast
qed

theorem allocRequestId_range_witness:
  "1 \<le> MAX_SAFE_INTEGER - 2 \<and> MAX_SAFE_INTEGER - 2 \<le> MAX_SAFE_INTEGER
   \<and> fst (allocRequestId (MAX_SAFE_INTEGER - 2)) = MAX_SAFE_INTEGER - 2
   \<and> snd (allocRequestId (MAX_SAFE_INTEGER - 2)) = MAX_SAFE_INTEGER - 1
   \<and> requestIds 3 (MAX_SAFE_INTEGER - 2)
       = [MAX_SAFE_INTEGER - 2, MAX_SAFE_INTEGER - 1, MAX_SAFE_INTEGER]
   \<and> distinct (requestIds 3 (MAX_SAFE_INTEGER - 2))"
proof -
  have h1: "1 \<le> MAX_SAFE_INTEGER - 2" and h2: "MAX_SAFE_INTEGER - 2 \<le> MAX_SAFE_INTEGER"
    by (simp_all add: MAX_SAFE_INTEGER_def)
  have h3: "MAX_SAFE_INTEGER - 2 + int 3 \<le> MAX_SAFE_INTEGER + 1" by simp
  from allocRequestId_range [OF h1 h2] h3
  have "requestIds 3 (MAX_SAFE_INTEGER - 2) = map (\<lambda>i. MAX_SAFE_INTEGER - 2 + int i) [0..<3]
        \<and> distinct (requestIds 3 (MAX_SAFE_INTEGER - 2))"
    by blast
  moreover have "map (\<lambda>i. MAX_SAFE_INTEGER - 2 + int i) [0..<3]
      = [MAX_SAFE_INTEGER - 2, MAX_SAFE_INTEGER - 1, MAX_SAFE_INTEGER]"
    by (simp add: eval_nat_numeral)
  ultimately show ?thesis using h1 h2
    by (simp add: allocRequestId_def MAX_SAFE_INTEGER_def)
qed

section \<open>Formatting a duration\<close>

text \<open>The decimal exponent used by \<^verbatim>\<open>toPrecision\<close> is the right one.\<close>

lemma show_nat_upper: "n < 10 ^ length (show_nat n)"
proof (induction n rule: show_nat.induct)
  case (1 n)
  show ?case
  proof (cases "n < 10")
    case True
    then show ?thesis by (subst show_nat.simps) simp
  next
    case False
    then have "n div 10 < 10 ^ length (show_nat (n div 10))" by (rule "1.IH")
    then have "n < 10 * 10 ^ length (show_nat (n div 10))" by simp
    with False show ?thesis by (subst show_nat.simps) simp
  qed
qed

lemma show_nat_lower: "0 < n \<Longrightarrow> 10 ^ (length (show_nat n) - 1) \<le> n"
proof (induction n rule: show_nat.induct)
  case (1 n)
  show ?case
  proof (cases "n < 10")
    case True
    with "1.prems" show ?thesis by (subst show_nat.simps) simp
  next
    case False
    then have pos: "0 < n div 10" by simp
    with False have ih: "10 ^ (length (show_nat (n div 10)) - 1) \<le> n div 10" by (intro "1.IH")
    have len: "0 < length (show_nat (n div 10))" by (subst show_nat.simps) simp
    then have "(10::nat) ^ length (show_nat (n div 10)) = 10 * 10 ^ (length (show_nat (n div 10)) - 1)"
      by (cases "length (show_nat (n div 10))") simp_all
    also have "\<dots> \<le> 10 * (n div 10)" using ih by simp
    also have "\<dots> \<le> n" by simp
    finally show ?thesis using False by (subst show_nat.simps) simp
  qed
qed

lemma exponent10_bounds:
  assumes "0 < x"
  shows "pow10 (exponent10 x) \<le> x \<and> x < pow10 (exponent10 x + 1)"
proof (cases "1 \<le> x")
  case True
  define q where "q = nat \<lfloor>x\<rfloor>"
  define k where "k = length (show_nat q)"
  have q1: "0 < q" using True by (simp add: q_def)
  have qx: "real q \<le> x" using True by (simp add: q_def)
  have xq: "x < real q + 1" using True by (simp add: q_def)
  have lo: "10 ^ (k - 1) \<le> q" unfolding k_def using q1 by (rule show_nat_lower)
  have hi: "q < 10 ^ k" unfolding k_def by (rule show_nat_upper)
  have kpos: "0 < k" unfolding k_def by (subst show_nat.simps) simp
  have e: "exponent10 x = int k - 1" using True by (simp add: exponent10_def q_def k_def)
  have rlo: "(10::real) ^ (k - 1) \<le> real q"
    using lo by (metis of_nat_le_iff of_nat_numeral of_nat_power)
  have rhi: "real q + 1 \<le> 10 ^ k"
  proof -
    from hi have "Suc q \<le> 10 ^ k" by simp
    then have "real (Suc q) \<le> real (10 ^ k)" by (simp only: of_nat_le_iff)
    then show ?thesis by simp
  qed
  have "pow10 (exponent10 x) = 10 ^ (k - 1)"
    unfolding e using kpos by (simp add: pow10_def nat_diff_distrib')
  also have "\<dots> \<le> real q" by (rule rlo)
  also have "\<dots> \<le> x" by (rule qx)
  finally have low: "pow10 (exponent10 x) \<le> x" .
  have "x < real q + 1" by (rule xq)
  also have "\<dots> \<le> 10 ^ k" by (rule rhi)
  also have "\<dots> = pow10 (exponent10 x + 1)"
    unfolding e by (simp add: pow10_def)
  finally have "x < pow10 (exponent10 x + 1)" .
  with low show ?thesis by blast
next
  case False
  define y where "y = 1 / x"
  define q where "q = nat \<lfloor>y\<rfloor>"
  define k where "k = length (show_nat q)"
  have x1: "x < 1" using False by simp
  have y1: "1 < y" using assms x1 by (simp add: y_def)
  have xy: "x = 1 / y" by (simp add: y_def)
  have q1: "0 < q" using y1 by (simp add: q_def)
  have qy: "real q \<le> y" using y1 by (simp add: q_def)
  have yq: "y < real q + 1" using y1 by (simp add: q_def)
  have lo: "10 ^ (k - 1) \<le> q" unfolding k_def using q1 by (rule show_nat_lower)
  have hi: "q < 10 ^ k" unfolding k_def by (rule show_nat_upper)
  have kpos: "0 < k" unfolding k_def by (subst show_nat.simps) simp
  have lo': "(10::real) ^ (k - 1) \<le> y"
  proof -
    have "(10::real) ^ (k - 1) \<le> real q"
      using lo by (metis of_nat_le_iff of_nat_numeral of_nat_power)
    then show ?thesis using qy by (rule order_trans)
  qed
  have hi': "y < 10 ^ k"
  proof -
    from hi have "Suc q \<le> 10 ^ k" by simp
    then have "real (Suc q) \<le> real (10 ^ k)" by (simp only: of_nat_le_iff)
    then have "real q + 1 \<le> 10 ^ k" by simp
    with yq show ?thesis by (rule less_le_trans)
  qed
  have p1: "pow10 (int k - 1) = 10 ^ (k - 1)"
    using kpos by (simp add: pow10_def nat_diff_distrib')
  show ?thesis
  proof (cases "y \<le> pow10 (int k - 1)")
    case True
    with lo' p1 have yeq: "y = 10 ^ (k - 1)" by simp
    have k2: "2 \<le> k"
    proof (rule ccontr)
      assume "\<not> 2 \<le> k"
      with kpos have "k = 1" by simp
      with yeq have "y = 1" by simp
      with y1 show False by simp
    qed
    then obtain j where kj: "k = Suc (Suc j)"
      by (metis Suc_le_D numeral_2_eq_2 Suc_le_mono le_0_eq not0_implies_Suc)
    have e: "exponent10 x = - (int k - 1)"
      using False True by (simp add: exponent10_def Let_def y_def q_def k_def)
    have a: "pow10 (- (int k - 1)) = 1 / 10 ^ (k - 1)"
      using k2 by (simp add: pow10_def nat_diff_distrib')
    have b: "pow10 (- (int k - 1) + 1) = 1 / 10 ^ (k - 2)"
      using k2 by (simp add: pow10_def nat_diff_distrib')
    have "(10::real) ^ (k - 1) = 10 * 10 ^ (k - 2)"
      by (simp add: kj)
    then have lt: "1 / (10::real) ^ (k - 1) < 1 / 10 ^ (k - 2)"
      by (simp add: field_simps)
    have xeq: "x = 1 / 10 ^ (k - 1)" by (simp only: xy yeq)
    have "pow10 (exponent10 x) = x" by (simp only: e a xeq [symmetric])
    moreover have "x < pow10 (exponent10 x + 1)"
      using lt by (simp only: e b xeq [symmetric])
    ultimately show ?thesis by simp
  next
    case no: False
    then have ylo: "10 ^ (k - 1) < y" using p1 by simp
    have e: "exponent10 x = - int k"
      using False no by (simp add: exponent10_def Let_def y_def q_def k_def)
    have a: "pow10 (- int k) = 1 / 10 ^ k"
      using kpos by (simp add: pow10_def)
    have b: "pow10 (- int k + 1) = 1 / 10 ^ (k - 1)"
      using kpos by (cases "k = 1") (simp_all add: pow10_def nat_diff_distrib')
    have "1 / 10 ^ k \<le> 1 / y" using hi' y1 by (simp add: frac_le)
    then have "pow10 (exponent10 x) \<le> x" by (simp only: e a xy [symmetric])
    moreover have "1 / y < 1 / 10 ^ (k - 1)" using ylo by (simp add: frac_less2)
    then have "x < pow10 (exponent10 x + 1)" by (simp only: e b xy [symmetric])
    ultimately show ?thesis by simp
  qed
qed

lemma ToInt32_floor:
  assumes "0 \<le> x" and "x < 2 ^ 31"
  shows "ToInt32 x = \<lfloor>x\<rfloor>"
proof -
  have "0 \<le> \<lfloor>x\<rfloor>" using assms(1) by simp
  moreover have "\<lfloor>x\<rfloor> < 2 ^ 31" using assms(2) by (simp add: floor_less_iff)
  ultimately show ?thesis using assms(1) by (simp add: ToInt32_def trunc_def Let_def)
qed

lemma ToInt32_div:
  assumes "0 \<le> a" and "a < 2 ^ 31" and "0 < b"
  shows "ToInt32 (of_int a / of_int b) = a div b"
proof -
  have nonneg: "0 \<le> (of_int a / of_int b :: real)" using assms by simp
  have "(of_int a / of_int b :: real) \<le> of_int a"
    using assms by (simp add: divide_le_eq mult_le_cancel_left1)
  moreover have "(of_int a :: real) < of_int (2 ^ 31)"
    using assms(2) by (simp only: of_int_less_iff)
  ultimately have "(of_int a / of_int b :: real) < 2 ^ 31" by simp
  with nonneg have "ToInt32 (of_int a / of_int b) = \<lfloor>of_int a / of_int b :: real\<rfloor>"
    by (simp add: ToInt32_floor)
  then show ?thesis by (simp add: floor_divide_of_int_eq)
qed

lemma wholeSeconds_floor:
  assumes "0 \<le> d" and "d < 2 ^ 31"
  shows "ToInt32 (of_int (ToInt32 d) / 1000) = \<lfloor>d / 1000\<rfloor>"
proof -
  have f: "ToInt32 d = \<lfloor>d\<rfloor>" using assms by (rule ToInt32_floor)
  have "0 \<le> \<lfloor>d\<rfloor>" using assms(1) by simp
  moreover have "\<lfloor>d\<rfloor> < 2 ^ 31" using assms(2) by (simp add: floor_less_iff)
  ultimately have "ToInt32 (of_int \<lfloor>d\<rfloor> / of_int 1000) = \<lfloor>d\<rfloor> div 1000"
    by (intro ToInt32_div) simp_all
  moreover have "\<lfloor>d / 1000\<rfloor> = \<lfloor>d\<rfloor> div 1000"
    using floor_divide_real_eq_div [of 1000 d] by simp
  ultimately show ?thesis using f by simp
qed

lemma js_rem_nonneg: "0 \<le> a \<Longrightarrow> 0 < b \<Longrightarrow> js_rem a b = a mod b"
  by (cases "a = 0") (simp_all add: js_rem_def)

text \<open>
  C10, as stated, fails twice. For an hour or more the code writes
  \<^verbatim>\<open>{hr}hr {min}min {sec}sec {ms}\<close>, as its own comment says, not the
  \<^verbatim>\<open>{hr}min {min}sec {sec}sec {ms}\<close> of the claim: one hour is
  \<^verbatim>\<open>1hr 0min 0sec 0.00000ms\<close>. And the whole seconds are not the truncation of
  \<open>d / 1000\<close> for every \<open>d \<ge> 0\<close>: \<^verbatim>\<open>| 0\<close> wraps at \<open>2^31\<close>, so for
  \<open>d = 2^31\<close> the whole seconds come out negative and only a millisecond component is
  written.
\<close>

theorem formatDuration_differs_from_spec:
  "formatDuration 3600000 = ''1hr 0min 0sec 0.00000ms''
   \<and> format_spec 3600000 = ''1min 0sec 0sec 0.00000ms''
   \<and> formatDuration 3600000 \<noteq> format_spec 3600000
   \<and> formatDuration 2147483648 = ''4.29497e+9ms''
   \<and> format_spec 2147483648 = ''596min 31sec 23sec 648.000ms''"
proof -
  have a: "formatDuration 3600000 = ''1hr 0min 0sec 0.00000ms''"
    by (simp add: number_eval eval_nat_numeral)
  have b: "format_spec 3600000 = ''1min 0sec 0sec 0.00000ms''"
    by (simp add: number_eval eval_nat_numeral)
  have c: "formatDuration 2147483648 = ''4.29497e+9ms''"
    by (simp add: number_eval)
  have d: "format_spec 2147483648 = ''596min 31sec 23sec 648.000ms''"
    by (simp add: number_eval)
  from a b have "formatDuration 3600000 \<noteq> format_spec 3600000" by simp
  with a b c d show ?thesis by blast
qed

text \<open>
  C10, amended. For every duration \<open>0 \<le> d < 2^31\<close> milliseconds, \<^verbatim>\<open>formatDuration\<close>
  takes the whole seconds by truncation of \<open>d / 1000\<close>, renders the remainder with
  \<^verbatim>\<open>toPrecision(6)\<close> and the suffix \<^verbatim>\<open>ms\<close>, and writes only that component below
  one second, \<^verbatim>\<open>{sec}sec {ms}\<close> below a minute, \<^verbatim>\<open>{min}min {sec}sec {ms}\<close> below an
  hour with the seconds modulo 60, and \<^verbatim>\<open>{hr}hr {min}min {sec}sec {ms}\<close> from an hour
  on, decomposed by division and remainder over 3600 and 60.
\<close>

theorem formatDuration_units:
  assumes "0 \<le> d" and "d < 2 ^ 31"
  shows "formatDuration d =
     (let sec = \<lfloor>d / 1000\<rfloor>;
          ms = toPrecision (d - of_int sec * 1000) 6 @ ''ms''
      in if sec < 1 then ms
         else if sec < 60 then show_int sec @ ''sec '' @ ms
         else if sec < 3600 then
           show_int (sec div 60) @ ''min '' @ show_int (sec mod 60) @ ''sec '' @ ms
         else show_int (sec div 3600) @ ''hr '' @ show_int (sec mod 3600 div 60) @ ''min ''
                @ show_int (sec mod 60) @ ''sec '' @ ms)"
proof -
  define ws where "ws = \<lfloor>d / 1000\<rfloor>"
  have ws: "ToInt32 (of_int (ToInt32 d) / 1000) = ws"
    unfolding ws_def using assms by (rule wholeSeconds_floor)
  have ws0: "0 \<le> ws" unfolding ws_def using assms(1) by simp
  have "d / 1000 < 2 ^ 31" using assms by simp
  then have ws31: "ws < 2 ^ 31" unfolding ws_def by (simp add: floor_less_iff)
  have m: "ToInt32 (of_int ws / of_int oneMinute) = ws div 60"
    using ToInt32_div [of ws 60] ws0 ws31 by (simp add: oneMinute_def)
  have h: "ToInt32 (of_int ws / of_int oneHour) = ws div 3600"
    using ToInt32_div [of ws 3600] ws0 ws31 by (simp add: oneHour_def)
  have r1: "js_rem ws oneMinute = ws mod 60"
    using ws0 by (simp add: js_rem_nonneg oneMinute_def)
  have r2: "js_rem ws oneHour = ws mod 3600"
    using ws0 by (simp add: js_rem_nonneg oneHour_def)
  have rm: "ToInt32 (of_int (ws mod 3600) / of_int oneMinute) = ws mod 3600 div 60"
    using ToInt32_div [of "ws mod 3600" 60] by (simp add: oneMinute_def)
  have "js_rem (ws mod 3600) oneMinute = ws mod 3600 mod 60"
    by (simp add: js_rem_nonneg oneMinute_def)
  also have "\<dots> = ws mod 60" by (simp add: mod_mod_cancel)
  finally have r3: "js_rem (ws mod 3600) oneMinute = ws mod 60" .
  have "0 \<le> ws mod 60" "ws mod 60 < 2 ^ 31" by simp_all
  then have rs: "ToInt32 (of_int (ws mod 60)) = ws mod 60"
    by (simp add: ToInt32_floor)
  show ?thesis
    unfolding formatDuration_def Let_def ws ws_def [symmetric] m h r1 r2 rm r3 rs
    by (simp add: oneMinute_def oneHour_def)
qed

theorem formatDuration_units_witness:
  "(0 :: real) \<le> 37230045 / 10 \<and> (37230045 / 10 :: real) < 2 ^ 31
   \<and> formatDuration (37230045 / 10) = ''1hr 2min 3sec 4.50000ms''"
proof -
  have h1: "(0 :: real) \<le> 37230045 / 10" and h2: "(37230045 / 10 :: real) < 2 ^ 31"
    by simp_all
  have "formatDuration (37230045 / 10) = ''1hr 2min 3sec 4.50000ms''"
    unfolding formatDuration_units [OF h1 h2]
    by (simp add: number_eval)
  with h1 h2 show ?thesis by blast
qed

section \<open>Parsing the response headers\<close>

lemma rawHeaders_foldl:
  "snd (foldl addHeader acc hs) = snd acc @ map splitHeader hs"
  by (induction hs arbitrary: acc) (simp_all add: addHeader_def split_beta)

text \<open>
  An assignment adds at most its key, and never the key \<^verbatim>\<open>__proto__\<close>; on the
  lookup it acts like an update, except for that key.
\<close>

lemma restrict_map_add_distrib: "(f ++ g) |` S = (f |` S) ++ (g |` S)"
  by (rule ext) (simp add: restrict_map_def map_add_def)

lemma map_of_assignProperty:
  "map_of (assignProperty k v obj) = map_of obj ++ (map_of [(k, v)] |` (- {''__proto__''}))"
  by (rule ext) (simp add: assignProperty_def update_conv' restrict_map_def map_add_def)

lemma headers_foldl:
  "map_of (fst (foldl addHeader acc hs))
     = map_of (fst acc)
         ++ (map_of (rev (map lowerName (map splitHeader hs))) |` (- {''__proto__''}))"
proof (induction hs arbitrary: acc)
  case Nil
  show ?case by simp
next
  case (Cons h hs)
  have "map_of (fst (addHeader acc h))
      = map_of (fst acc) ++ (map_of [lowerName (splitHeader h)] |` (- {''__proto__''}))"
    by (simp add: addHeader_def split_beta lowerName_def map_of_assignProperty)
  then show ?case
    using Cons.IH [of "addHeader acc h"]
    by (simp add: map_add_assoc restrict_map_add_distrib del: map_add_upd)
qed

lemma headers_distinct_foldl:
  "distinct (map fst (fst acc)) \<Longrightarrow> distinct (map fst (fst (foldl addHeader acc hs)))"
  by (induction hs arbitrary: acc)
     (simp_all add: addHeader_def assignProperty_def split_beta distinct_update)

lemma toLowerCase_char_idem: "toLowerCase_char (toLowerCase_char c) = toLowerCase_char c"
proof -
  define n :: nat where "n = of_char c"
  show ?thesis
  proof (cases "(65 \<le> n \<and> n \<le> 90) \<or> (192 \<le> n \<and> n \<le> 222 \<and> n \<noteq> 215)")
    case True
    then have lc: "toLowerCase_char c = char_of (n + 32)"
      by (simp add: toLowerCase_char_def n_def)
    from True have "n + 32 < 256" by arith
    then have "(n + 32) mod 256 = n + 32" by simp
    then have m: "(of_char (char_of (n + 32)) :: nat) = n + 32" by simp
    from True have "\<not> ((65 \<le> n + 32 \<and> n + 32 \<le> 90)
        \<or> (192 \<le> n + 32 \<and> n + 32 \<le> 222 \<and> n + 32 \<noteq> 215))" by arith
    then have "toLowerCase_char (char_of (n + 32)) = char_of (n + 32)"
      unfolding toLowerCase_char_def Let_def m by (simp only: if_False)
    then show ?thesis by (simp only: lc)
  next
    case False
    then have "toLowerCase_char c = c"
      unfolding toLowerCase_char_def Let_def n_def by (simp only: if_False)
    then show ?thesis by simp
  qed
qed

lemma toLowerCase_idem: "toLowerCase (toLowerCase s) = toLowerCase s"
  by (simp add: toLowerCase_def toLowerCase_char_idem)

lemma headers_keys_foldl:
  "(\<forall>k \<in> fst ` set (fst acc). toLowerCase k = k) \<Longrightarrow>
   (\<forall>k \<in> fst ` set (fst (foldl addHeader acc hs)). toLowerCase k = k)"
proof (induction hs arbitrary: acc)
  case Nil
  then show ?case by simp
next
  case (Cons h hs)
  have sub: "fst ` set (fst (addHeader acc h))
          \<subseteq> insert (toLowerCase (fst (splitHeader h))) (fst ` set (fst acc))"
    by (auto simp: addHeader_def assignProperty_def split_beta dom_update)
  have "\<forall>k \<in> insert (toLowerCase (fst (splitHeader h))) (fst ` set (fst acc)). toLowerCase k = k"
    using Cons.prems by (simp add: toLowerCase_idem)
  with sub have "\<forall>k \<in> fst ` set (fst (addHeader acc h)). toLowerCase k = k"
    by blast
  then have "\<forall>k \<in> fst ` set (fst (foldl addHeader (addHeader acc h) hs)). toLowerCase k = k"
    by (rule Cons.IH)
  then show ?case by (simp only: foldl_Cons)
qed

lemma headers_keys_lower:
  "map toLowerCase (map fst (fst (parseHeaders blob))) = map fst (fst (parseHeaders blob))"
proof -
  have "\<forall>k \<in> fst ` set (fst (parseHeaders blob)). toLowerCase k = k"
    unfolding parseHeaders_def by (rule headers_keys_foldl) simp
  then have low: "\<forall>k \<in> set (map fst (fst (parseHeaders blob))). toLowerCase k = k"
    by (simp only: set_map)
  show ?thesis
  proof (rule map_idI)
    fix k
    assume "k \<in> set (map fst (fst (parseHeaders blob)))"
    with low show "toLowerCase k = k" by blast
  qed
qed

text \<open>
  C7, as stated, fails for one header name. The headers are an object literal filled by
  assignment, and the assignment of a string to the key \<^verbatim>\<open>__proto__\<close> creates no
  property. The blob \<^verbatim>\<open>"__proto__: x\r\nX-A: 1\r\n"\<close> gives the headers
  \<^verbatim>\<open>{"x-a": "1"}\<close>: the lower-cased name \<^verbatim>\<open>__proto__\<close> is not a key of the
  map, although the raw headers hold it with its value.
\<close>

theorem parseHeaders_drops_proto:
  "parseHeaders (''__proto__: x'' @ CRLF @ ''X-A: 1'' @ CRLF)
     = ([(''x-a'', ''1'')], [(''__proto__'', ''x''), (''X-A'', ''1'')])
   \<and> map_of (fst (parseHeaders (''__proto__: x'' @ CRLF @ ''X-A: 1'' @ CRLF))) ''__proto__'' = None
   \<and> map_of (rev (map lowerName (snd (parseHeaders (''__proto__: x'' @ CRLF @ ''X-A: 1'' @ CRLF)))))
        ''__proto__'' = Some ''x''"
  by (simp add: header_eval lowerName_def)

text \<open>
  C7, amended. The header blob \<^verbatim>\<open>"Content-Type: application/json\r\nX-Foo: bar\r\n"\<close>
  gives the headers \<^verbatim>\<open>{"content-type": "application/json", "x-foo": "bar"}\<close> and the
  raw headers \<^verbatim>\<open>[["Content-Type", "application/json"], ["X-Foo", "bar"]]\<close>. For every
  blob, the raw headers are the name and value of each line, in the order of the lines, in
  the original casing and with duplicates, the name \<^verbatim>\<open>__proto__\<close> included; the
  headers have one entry per lower-cased name other than \<^verbatim>\<open>__proto__\<close>, every key is
  lower case, looking up a key other than \<^verbatim>\<open>__proto__\<close> gives the value of the last
  raw header with that lower-cased name, and \<^verbatim>\<open>__proto__\<close> is never a key. With a
  repeated name, as in \<^verbatim>\<open>"Set-Cookie: a=1\r\nX-Foo: bar\r\nset-cookie: b=2\r\n"\<close>, the
  last value wins.
\<close>

theorem parseHeaders_correct:
  "parseHeaders (''Content-Type: application/json'' @ CRLF @ ''X-Foo: bar'' @ CRLF)
     = ([(''content-type'', ''application/json''), (''x-foo'', ''bar'')],
        [(''Content-Type'', ''application/json''), (''X-Foo'', ''bar'')])
   \<and> parseHeaders (''Set-Cookie: a=1'' @ CRLF @ ''X-Foo: bar'' @ CRLF @ ''set-cookie: b=2'' @ CRLF)
     = ([(''set-cookie'', ''b=2''), (''x-foo'', ''bar'')],
        [(''Set-Cookie'', ''a=1''), (''X-Foo'', ''bar''), (''set-cookie'', ''b=2'')])
   \<and> snd (parseHeaders blob) = map splitHeader (split_crlf (trim blob))
   \<and> map_of (fst (parseHeaders blob)) k
       = (if k = ''__proto__'' then None
          else map_of (rev (map lowerName (snd (parseHeaders blob)))) k)
   \<and> distinct (map fst (fst (parseHeaders blob)))
   \<and> map toLowerCase (map fst (fst (parseHeaders blob))) = map fst (fst (parseHeaders blob))"
proof -
  have "parseHeaders (''Content-Type: application/json'' @ CRLF @ ''X-Foo: bar'' @ CRLF)
     = ([(''content-type'', ''application/json''), (''x-foo'', ''bar'')],
        [(''Content-Type'', ''application/json''), (''X-Foo'', ''bar'')])"
    by (simp add: header_eval)
  moreover have
    "parseHeaders (''Set-Cookie: a=1'' @ CRLF @ ''X-Foo: bar'' @ CRLF @ ''set-cookie: b=2'' @ CRLF)
     = ([(''set-cookie'', ''b=2''), (''x-foo'', ''bar'')],
        [(''Set-Cookie'', ''a=1''), (''X-Foo'', ''bar''), (''set-cookie'', ''b=2'')])"
    by (simp add: header_eval)
  moreover have "snd (parseHeaders blob) = map splitHeader (split_crlf (trim blob))"
    by (simp add: parseHeaders_def rawHeaders_foldl)
  moreover have
    "map_of (fst (parseHeaders blob))
       = map_of (rev (map lowerName (snd (parseHeaders blob)))) |` (- {''__proto__''})"
    by (simp add: parseHeaders_def rawHeaders_foldl headers_foldl)
  then have "map_of (fst (parseHeaders blob)) k
       = (if k = ''__proto__'' then None
          else map_of (rev (map lowerName (snd (parseHeaders blob)))) k)"
    by (simp add: restrict_map_def)
  moreover have "distinct (map fst (fst (parseHeaders blob)))"
    by (simp add: parseHeaders_def headers_distinct_foldl)
  moreover note headers_keys_lower [of blob]
  ultimately show ?thesis by blast
qed

section \<open>The executor: promises and attempts\<close>

lemma settle_forward:
  "i < length ats \<Longrightarrow> chained (ats ! i) = Some p \<Longrightarrow> settled (ats ! i) = [] \<Longrightarrow> p < i \<Longrightarrow>
   settle i v ats = settle p v (ats[i := (ats ! i)\<lparr> settled := [v] \<rparr>])"
  by (subst settle.simps) (simp add: Let_def)

lemma settle_stop:
  "i < length ats \<Longrightarrow>
   chained (ats ! i) = None \<or> settled (ats ! i) \<noteq> [] \<or> (\<exists>p. chained (ats ! i) = Some p \<and> \<not> p < i) \<Longrightarrow>
   settle i v ats = ats[i := (ats ! i)\<lparr> settled := settled (ats ! i) @ [v] \<rparr>]"
  by (subst settle.simps) (auto simp: Let_def split: option.split)

lemma settle_outside: "\<not> i < length ats \<Longrightarrow> settle i v ats = ats"
  by (subst settle.simps) simp

lemma settle_cases:
  obtains (outside) "\<not> i < length ats"
  | (stop) "i < length ats" "chained (ats ! i) = None \<or> settled (ats ! i) \<noteq> [] \<or> (\<exists>p. chained (ats ! i) = Some p \<and> \<not> p < i)"
  | (forward) p where "i < length ats" "chained (ats ! i) = Some p" "settled (ats ! i) = []" "p < i"
  by (cases "chained (ats ! i)") auto

lemma length_settle [simp]: "length (settle i v ats) = length ats"
proof (induction i arbitrary: ats rule: less_induct)
  case (less i)
  show ?case
  proof (cases i ats rule: settle_cases)
    case outside
    then show ?thesis by (simp add: settle_outside)
  next
    case stop
    then show ?thesis by (simp add: settle_stop)
  next
    case (forward p)
    then show ?thesis using less.IH [of p] by (simp add: settle_forward)
  qed
qed

lemma settle_above: "i < j \<Longrightarrow> settle i v ats ! j = ats ! j"
proof (induction i arbitrary: ats rule: less_induct)
  case (less i)
  show ?case
  proof (cases i ats rule: settle_cases)
    case outside
    then show ?thesis by (simp add: settle_outside)
  next
    case stop
    then show ?thesis using less.prems by (simp add: settle_stop)
  next
    case (forward p)
    then have "p < j" using less.prems by simp
    then show ?thesis using forward less.IH [of p] less.prems by (simp add: settle_forward)
  qed
qed

lemma settle_at:
  assumes "i < length ats"
  shows "settle i v ats ! i = (ats ! i)\<lparr> settled := settled (ats ! i) @ [v] \<rparr>"
proof (cases i ats rule: settle_cases)
  case outside
  with assms show ?thesis by simp
next
  case stop
  then show ?thesis by (simp add: settle_stop)
next
  case (forward p)
  then show ?thesis by (simp add: settle_forward settle_above)
qed

text \<open>A chain of unsettled promises, each attached to the one before it.\<close>

lemma settle_chain:
  assumes "k < length ats"
      and "\<forall>j. i0 < j \<and> j \<le> k \<longrightarrow> chained (ats ! j) = Some (j - 1)"
      and "\<forall>j. i0 \<le> j \<and> j \<le> k \<longrightarrow> settled (ats ! j) = []"
      and "i0 \<le> j" and "j \<le> k"
  shows "settled (settle k v ats ! j) = [v]"
  using assms
proof (induction k arbitrary: ats rule: less_induct)
  case (less k)
  show ?case
  proof (cases "j = k")
    case True
    with less.prems show ?thesis by (simp add: settle_at)
  next
    case False
    with less.prems have jk: "j < k" and ik: "i0 < k" by simp_all
    then have c: "chained (ats ! k) = Some (k - 1)" and s: "settled (ats ! k) = []"
      using less.prems by simp_all
    let ?ats = "ats[k := (ats ! k)\<lparr> settled := [v] \<rparr>]"
    have fw: "settle k v ats = settle (k - 1) v ?ats"
      using less.prems(1) c s ik by (simp add: settle_forward)
    have "settled (settle (k - 1) v ?ats ! j) = [v]"
    proof (rule less.IH)
      show "k - 1 < k" using ik by simp
      show "k - 1 < length ?ats" using less.prems(1) by simp
      show "\<forall>j. i0 < j \<and> j \<le> k - 1 \<longrightarrow> chained (?ats ! j) = Some (j - 1)"
        using less.prems(2) ik by (auto simp: nth_list_update)
      show "\<forall>j. i0 \<le> j \<and> j \<le> k - 1 \<longrightarrow> settled (?ats ! j) = []"
        using less.prems(3) ik by (auto simp: nth_list_update)
      show "i0 \<le> j" by fact
      show "j \<le> k - 1" using jk by simp
    qed
    with fw show ?thesis by simp
  qed
qed

lemma attempts_makeRequest:
  "attempts (makeRequest this m p ps a c s) =
     attempts s @
       [\<lparr> requestId = fst (allocRequestId (nextRequestId s)),
          attempt = (case a of None \<Rightarrow> 1 | Some k \<Rightarrow> k),
          method' = m, path = p, params = ps, outcome = Outcome_None, xhr = new_XMLHttpRequest,
          xhrCalls = xhrCalls (last (attempts (makeRequest this m p ps a c s))),
          settled = [], chained = c \<rparr>]"
  by (simp add: makeRequest_def Let_def)

lemma timers_makeRequest [simp]: "timers (makeRequest this m p ps a c s) = timers s"
  by (simp add: makeRequest_def Let_def)

lemma nextRequestId_makeRequest:
  "nextRequestId (makeRequest this m p ps a c s) = snd (allocRequestId (nextRequestId s))"
  by (simp add: makeRequest_def Let_def)

lemma length_makeRequest [simp]:
  "length (attempts (makeRequest this m p ps a c s)) = Suc (length (attempts s))"
  by (subst attempts_makeRequest) simp

lemma nth_old_makeRequest:
  "j < length (attempts s) \<Longrightarrow> attempts (makeRequest this m p ps a c s) ! j = attempts s ! j"
  by (subst attempts_makeRequest) (simp add: nth_append)

lemma nth_new_makeRequest:
  "j = length (attempts s) \<Longrightarrow>
     attempts (makeRequest this m p ps a c s) ! j =
       \<lparr> requestId = fst (allocRequestId (nextRequestId s)),
          attempt = (case a of None \<Rightarrow> 1 | Some k \<Rightarrow> k),
          method' = m, path = p, params = ps, outcome = Outcome_None, xhr = new_XMLHttpRequest,
          xhrCalls = xhrCalls (last (attempts (makeRequest this m p ps a c s))),
          settled = [], chained = c \<rparr>"
  by (subst attempts_makeRequest) simp

lemma retry_scheduled:
  assumes "retries_of this (params (attempts s ! i)) \<noteq> 0"
      and "isRetryable_of this (params (attempts s ! i)) (xhr (attempts s ! i)) cause res"
  shows "retryIfPossible this i cause res s =
           s\<lparr> timers := timers s @
               [\<lparr> callback = Callback_doRetry i
                     ((params (attempts s ! i))\<lparr> retries := Some (retries_of this (params (attempts s ! i)) - 1) \<rparr>),
                  delay = backoff (attempt (attempts s ! i)) \<rparr>] \<rparr>"
  using assms by (simp add: retryIfPossible_def Let_def)

lemma retry_declined:
  assumes "retries_of this (params (attempts s ! i)) = 0
           \<or> \<not> isRetryable_of this (params (attempts s ! i)) (xhr (attempts s ! i)) cause res"
  shows "retryIfPossible this i cause res s =
           s\<lparr> attempts :=
                settle i (Reject [(''xhr'', XhrValue i), (''cause'', CauseValue cause)]) (attempts s) \<rparr>"
  using assms by (auto simp: retryIfPossible_def Let_def)

lemma run_Nil [simp]: "run this s [] = s"
  by (simp add: run_def)

lemma run_Cons [simp]: "run this s (i # ins) = run this (step this s i) ins"
  by (simp add: run_def)

lemma run_append: "run this s (xs @ ys) = run this (run this s xs) ys"
  by (simp add: run_def)

lemma run_failure_inputs:
  assumes k: "k < length (attempts s)"
      and t: "timers s = []"
      and o: "outcome (attempts s ! k) = Outcome_None"
      and f: "shows_failure c x (params (attempts s ! k))"
  shows "\<exists>res a'. run this s (failure_inputs c k x)
                     = retryIfPossible this k c res (s\<lparr> attempts := (attempts s)[k := a'] \<rparr>)
                 \<and> params a' = params (attempts s ! k)
                 \<and> settled a' = settled (attempts s ! k)
                 \<and> chained a' = chained (attempts s ! k)
                 \<and> attempt a' = attempt (attempts s ! k)
                 \<and> method' a' = method' (attempts s ! k)
                 \<and> path a' = path (attempts s ! k)
                 \<and> xhr a' = x"
proof (cases c)
  case Error
  show ?thesis
    by (rule exI [of _ None], rule exI [of _ "(attempts s ! k)\<lparr> xhr := x \<rparr>"])
       (simp add: Error dispatch_def onError_def k Let_def)
next
  case Abort
  show ?thesis
    by (rule exI [of _ None], rule exI [of _ "(attempts s ! k)\<lparr> xhr := x \<rparr>"])
       (simp add: Abort dispatch_def onAbort_def k Let_def)
next
  case Timeout
  show ?thesis
    by (rule exI [of _ None], rule exI [of _ "(attempts s ! k)\<lparr> xhr := x \<rparr>"])
       (simp add: Timeout dispatch_def onTimeout_def k Let_def)
next
  case Status
  let ?a = "(attempts s ! k)\<lparr> xhr := x \<rparr>"
  from f Status have rs: "readyState x = Done" and st: "400 \<le> status x"
    and rd: "truthy_body (response x) \<or> responseType (params (attempts s ! k)) = None
             \<or> responseType (params (attempts s ! k)) = Some []
             \<or> responseType (params (attempts s ! k)) = Some ''text''"
    by (simp_all add: shows_failure_def)
  have "\<exists>data. responseData ?a = Some data"
  proof (cases "truthy_body (response x)")
    case True
    then obtain b where "response x = Some b"
      by (cases "response x") (simp_all add: truthy_body_def)
    with True show ?thesis by (simp add: responseData_def)
  next
    case False
    with rd show ?thesis by (auto simp: responseData_def)
  qed
  then obtain data where data: "responseData ?a = Some data" ..
  let ?res = "\<lparr> res_xhr = k, statusCode = status x, res_body = data,
               res_headers = fst (parseHeaders (allResponseHeaders x)),
               rawHeaders = snd (parseHeaders (allResponseHeaders x)) \<rparr>"
  have d: "dispatch this k Event_readystatechange x s
           = s\<lparr> attempts := (attempts s)[k := ?a],
                timers := [\<lparr> callback = Callback_onDone k, delay = 10 \<rparr>] \<rparr>"
    using k rs t by (simp add: dispatch_def onReadyStateChange_def Let_def)
  have e: "elapse this 0 (s\<lparr> attempts := (attempts s)[k := ?a],
                timers := [\<lparr> callback = Callback_onDone k, delay = 10 \<rparr>] \<rparr>)
           = retryIfPossible this k Status (Some ?res)
               (s\<lparr> timers := [], attempts := (attempts s)[k := ?a\<lparr> outcome := Outcome_Done \<rparr>] \<rparr>)"
    using k o st data by (simp add: elapse_def onDone_def Let_def)
  have "s\<lparr> timers := [], attempts := (attempts s)[k := ?a\<lparr> outcome := Outcome_Done \<rparr>] \<rparr>
        = s\<lparr> attempts := (attempts s)[k := ?a\<lparr> outcome := Outcome_Done \<rparr>] \<rparr>"
    using t by (cases s) simp
  with d e have "run this s (failure_inputs c k x)
      = retryIfPossible this k c (Some ?res)
          (s\<lparr> attempts := (attempts s)[k := ?a\<lparr> outcome := Outcome_Done \<rparr>] \<rparr>)"
    by (simp add: Status)
  then show ?thesis
    by (intro exI [of _ "Some ?res"] exI [of _ "?a\<lparr> outcome := Outcome_Done \<rparr>"]) simp
qed

section \<open>The executor: a chain of failing attempts\<close>

lemma retries_of_update [simp]: "retries_of this (ps\<lparr> retries := Some r \<rparr>) = r"
  by (simp add: retries_of_def)

lemma isRetryable_of_update [simp]:
  "isRetryable_of this (ps\<lparr> retries := r \<rparr>) = isRetryable_of this ps"
  by (simp add: isRetryable_of_def)

lemma shows_failure_update [simp]:
  "shows_failure c x (ps\<lparr> retries := r \<rparr>) = shows_failure c x ps"
  by (cases c) (simp_all add: shows_failure_def)

lemma elapse_doRetry:
  assumes "timers s = [\<lparr> callback = Callback_doRetry i np, delay = d \<rparr>]"
  shows "elapse this 0 s
           = makeRequest this (method' (attempts s ! i)) (path (attempts s ! i)) np None (Some i)
               (s\<lparr> timers := [] \<rparr>)"
  using assms by (simp add: elapse_def doRetry_def Let_def)

lemma failing_chain_run:
  assumes pol: "\<And>y res. pol y c res"
  shows "timers s = [] \<Longrightarrow> length (attempts s) = Suc k \<Longrightarrow>
         outcome (attempts s ! k) = Outcome_None \<Longrightarrow>
         retries_of this (params (attempts s ! k)) = int r \<Longrightarrow>
         isRetryable_of this (params (attempts s ! k)) = pol \<Longrightarrow>
         shows_failure c x (params (attempts s ! k)) \<Longrightarrow>
         i0 \<le> k \<Longrightarrow>
         \<forall>j. i0 < j \<and> j \<le> k \<longrightarrow> chained (attempts s ! j) = Some (j - 1) \<Longrightarrow>
         \<forall>j. i0 \<le> j \<and> j \<le> k \<longrightarrow> settled (attempts s ! j) = [] \<Longrightarrow>
         length (attempts (run this s (failing_chain c x k r))) = Suc (k + r)
         \<and> timers (run this s (failing_chain c x k r)) = []
         \<and> (\<forall>j. i0 \<le> j \<and> j \<le> k + r \<longrightarrow>
               settled (attempts (run this s (failing_chain c x k r)) ! j)
                 = [Reject [(''xhr'', XhrValue (k + r)), (''cause'', CauseValue c)]])"
proof (induction r arbitrary: s k)
  case 0
  have klt: "k < length (attempts s)" using "0.prems"(2) by simp
  from run_failure_inputs [OF klt "0.prems"(1) "0.prems"(3) "0.prems"(6), of this]
  obtain res a' where
    run: "run this s (failure_inputs c k x)
            = retryIfPossible this k c res (s\<lparr> attempts := (attempts s)[k := a'] \<rparr>)"
    and ps: "params a' = params (attempts s ! k)"
    and st: "settled a' = settled (attempts s ! k)"
    and ch: "chained a' = chained (attempts s ! k)"
    by blast
  let ?ats = "(attempts s)[k := a']"
  let ?s1 = "s\<lparr> attempts := ?ats \<rparr>"
  let ?v = "Reject [(''xhr'', XhrValue k), (''cause'', CauseValue c)]"
  have "retries_of this (params (attempts ?s1 ! k)) = 0"
    using klt ps "0.prems"(4) by simp
  then have "retryIfPossible this k c res ?s1 = ?s1\<lparr> attempts := settle k ?v (attempts ?s1) \<rparr>"
    by (intro retry_declined) simp
  with run have fin: "run this s (failing_chain c x k 0) = ?s1\<lparr> attempts := settle k ?v ?ats \<rparr>"
    by simp
  have chain: "\<forall>j. i0 < j \<and> j \<le> k \<longrightarrow> chained (?ats ! j) = Some (j - 1)"
    using "0.prems"(8) klt ch by (auto simp: nth_list_update)
  have unsettled: "\<forall>j. i0 \<le> j \<and> j \<le> k \<longrightarrow> settled (?ats ! j) = []"
    using "0.prems"(9) klt st by (auto simp: nth_list_update)
  have "\<forall>j. i0 \<le> j \<and> j \<le> k \<longrightarrow> settled (settle k ?v ?ats ! j) = [?v]"
  proof (intro allI impI)
    fix j assume "i0 \<le> j \<and> j \<le> k"
    then show "settled (settle k ?v ?ats ! j) = [?v]"
      using settle_chain [of k ?ats i0 j ?v] klt chain unsettled by simp
  qed
  then show ?case using fin "0.prems"(1,2) by simp
next
  case (Suc r)
  have klt: "k < length (attempts s)" using Suc.prems(2) by simp
  from run_failure_inputs [OF klt Suc.prems(1) Suc.prems(3) Suc.prems(6), of this]
  obtain res a' where
    run: "run this s (failure_inputs c k x)
            = retryIfPossible this k c res (s\<lparr> attempts := (attempts s)[k := a'] \<rparr>)"
    and ps: "params a' = params (attempts s ! k)"
    and st: "settled a' = settled (attempts s ! k)"
    and ch: "chained a' = chained (attempts s ! k)"
    by blast
  let ?ats = "(attempts s)[k := a']"
  let ?s1 = "s\<lparr> attempts := ?ats \<rparr>"
  let ?np = "(params a')\<lparr> retries := Some (int (Suc r) - 1) \<rparr>"
  let ?t = "\<lparr> callback = Callback_doRetry k ?np, delay = backoff (attempt a') \<rparr>"
  have a1: "attempts ?s1 ! k = a'" using klt by simp
  have "retries_of this (params (attempts ?s1 ! k)) \<noteq> 0"
    unfolding a1 ps using Suc.prems(4) by simp
  moreover have "isRetryable_of this (params (attempts ?s1 ! k)) (xhr (attempts ?s1 ! k)) c res"
    unfolding a1 ps using Suc.prems(5) pol by simp
  ultimately have "retryIfPossible this k c res ?s1
      = ?s1\<lparr> timers := timers ?s1 @
               [\<lparr> callback = Callback_doRetry k
                     ((params (attempts ?s1 ! k))\<lparr> retries := Some (retries_of this (params (attempts ?s1 ! k)) - 1) \<rparr>),
                  delay = backoff (attempt (attempts ?s1 ! k)) \<rparr>] \<rparr>"
    by (rule retry_scheduled)
  also have "\<dots> = ?s1\<lparr> timers := [?t] \<rparr>"
    unfolding a1 using Suc.prems(1,4) ps by simp
  finally have r1: "run this s (failure_inputs c k x) = ?s1\<lparr> timers := [?t] \<rparr>"
    using run by simp
  define s2 where "s2 = ?s1\<lparr> timers := [] \<rparr>"
  define s3 where "s3 = makeRequest this (method' (attempts s2 ! k)) (path (attempts s2 ! k)) ?np None (Some k) s2"
  have "elapse this 0 (?s1\<lparr> timers := [?t] \<rparr>)
          = makeRequest this (method' (attempts (?s1\<lparr> timers := [?t] \<rparr>) ! k))
              (path (attempts (?s1\<lparr> timers := [?t] \<rparr>) ! k)) ?np None (Some k)
              (?s1\<lparr> timers := [?t] \<rparr>\<lparr> timers := [] \<rparr>)"
    by (rule elapse_doRetry) simp
  then have r2: "elapse this 0 (?s1\<lparr> timers := [?t] \<rparr>) = s3"
    by (simp add: s3_def s2_def)
  have split: "run this s (failing_chain c x k (Suc r)) = run this s3 (failing_chain c x (Suc k) r)"
    using r1 r2 by (simp add: run_append)
  have ats2: "attempts s2 = ?ats" and tm2: "timers s2 = []" by (simp_all add: s2_def)
  have len2: "length (attempts s2) = Suc k" using Suc.prems(2) by (simp add: ats2)
  have new: "attempts s3 ! Suc k =
       \<lparr> requestId = fst (allocRequestId (nextRequestId s2)),
          attempt = 1,
          method' = method' (attempts s2 ! k), path = path (attempts s2 ! k), params = ?np,
          outcome = Outcome_None, xhr = new_XMLHttpRequest,
          xhrCalls = xhrCalls (last (attempts s3)),
          settled = [], chained = Some k \<rparr>"
    unfolding s3_def
    using nth_new_makeRequest [of "Suc k" s2 this _ _ ?np None "Some k"] len2
    by simp
  have old: "attempts s3 ! j = ?ats ! j" if "j \<le> k" for j
    unfolding s3_def
    using that nth_old_makeRequest [of j s2 this _ _ ?np None "Some k"] len2
    by (simp add: ats2)
  have tm3: "timers s3 = []" by (simp add: s3_def tm2)
  have len3: "length (attempts s3) = Suc (Suc k)" by (simp add: s3_def len2)
  have "length (attempts (run this s3 (failing_chain c x (Suc k) r))) = Suc (Suc k + r)
         \<and> timers (run this s3 (failing_chain c x (Suc k) r)) = []
         \<and> (\<forall>j. i0 \<le> j \<and> j \<le> Suc k + r \<longrightarrow>
               settled (attempts (run this s3 (failing_chain c x (Suc k) r)) ! j)
                 = [Reject [(''xhr'', XhrValue (Suc k + r)), (''cause'', CauseValue c)]])"
  proof (rule Suc.IH)
    show "timers s3 = []" by (rule tm3)
    show "length (attempts s3) = Suc (Suc k)" by (rule len3)
    show "outcome (attempts s3 ! Suc k) = Outcome_None" by (simp add: new)
    show "retries_of this (params (attempts s3 ! Suc k)) = int r" by (simp add: new)
    show "isRetryable_of this (params (attempts s3 ! Suc k)) = pol"
      using Suc.prems(5) ps by (simp add: new)
    show "shows_failure c x (params (attempts s3 ! Suc k))"
      using Suc.prems(6) ps by (simp add: new)
    show "i0 \<le> Suc k" using Suc.prems(7) by simp
    show "\<forall>j. i0 < j \<and> j \<le> Suc k \<longrightarrow> chained (attempts s3 ! j) = Some (j - 1)"
    proof (intro allI impI)
      fix j assume j: "i0 < j \<and> j \<le> Suc k"
      show "chained (attempts s3 ! j) = Some (j - 1)"
      proof (cases "j = Suc k")
        case True
        then show ?thesis by (simp add: new)
      next
        case False
        with j have jk: "j \<le> k" by simp
        then show ?thesis using j Suc.prems(8) klt ch by (auto simp: old nth_list_update)
      qed
    qed
    show "\<forall>j. i0 \<le> j \<and> j \<le> Suc k \<longrightarrow> settled (attempts s3 ! j) = []"
    proof (intro allI impI)
      fix j assume j: "i0 \<le> j \<and> j \<le> Suc k"
      show "settled (attempts s3 ! j) = []"
      proof (cases "j = Suc k")
        case True
        then show ?thesis by (simp add: new)
      next
        case False
        with j have jk: "j \<le> k" by simp
        then show ?thesis using j Suc.prems(9) klt st by (auto simp: old nth_list_update)
      qed
    qed
  qed
  then show ?case unfolding split by simp
qed

section \<open>The executor: what a step leaves alone\<close>

text \<open>Fields that a settlement does not write.\<close>

lemma map_update_same:
  assumes "f a = f (ats ! j)"
  shows "map f (ats[j := a]) = map f ats"
proof (cases "j < length ats")
  case True
  then have "map f (ats[j := a]) = (map f ats)[j := map f ats ! j]"
    using assms by (simp add: map_update)
  then show ?thesis by (simp only: list_update_id)
next
  case False
  then have "ats[j := a] = ats" by (simp add: list_update_beyond)
  then show ?thesis by simp
qed

lemma settle_map:
  assumes "\<And>a x. f (a\<lparr> settled := x \<rparr>) = f a"
  shows "map f (settle j v ats) = map f ats"
proof (induction j arbitrary: ats rule: less_induct)
  case (less j)
  show ?case
  proof (cases j ats rule: settle_cases)
    case outside
    then show ?thesis by (simp add: settle_outside)
  next
    case stop
    then show ?thesis by (simp add: settle_stop map_update_same assms)
  next
    case (forward p)
    have "map f (settle p v (ats[j := (ats ! j)\<lparr> settled := [v] \<rparr>]))
            = map f (ats[j := (ats ! j)\<lparr> settled := [v] \<rparr>])"
      using forward by (intro less.IH) simp
    then show ?thesis using forward by (simp add: settle_forward map_update_same assms)
  qed
qed

lemma map_chained_update:
  assumes "j < length ats" and "chained a = chained (ats ! j)"
  shows "map chained (ats[j := a]) = map chained ats"
  using assms(2) by (rule map_update_same)

lemma settle_chained: "map chained (settle j v ats) = map chained ats"
  by (rule settle_map) simp

lemma settle_xhrCalls: "map xhrCalls (settle j v ats) = map xhrCalls ats"
  by (rule settle_map) simp

lemma settle_outcome: "map outcome (settle j v ats) = map outcome ats"
  by (rule settle_map) simp

text \<open>The three failure handlers never write the latch.\<close>

lemma outcome_retryIfPossible:
  "map outcome (attempts (retryIfPossible this j cause res s)) = map outcome (attempts s)"
  by (simp add: retryIfPossible_def Let_def settle_outcome)

lemma settle_elsewhere:
  assumes "Some n \<notin> set (map chained ats)" and "j \<noteq> n"
  shows "settle j v ats ! n = ats ! n"
  using assms
proof (induction j arbitrary: ats rule: less_induct)
  case (less j)
  show ?case
  proof (cases j ats rule: settle_cases)
    case outside
    then show ?thesis by (simp add: settle_outside)
  next
    case stop
    then show ?thesis using less.prems by (simp add: settle_stop)
  next
    case (forward p)
    let ?ats = "ats[j := (ats ! j)\<lparr> settled := [v] \<rparr>]"
    have same: "map chained ?ats = map chained ats"
      using forward by (simp add: map_chained_update)
    have "chained (ats ! j) \<in> set (map chained ats)"
      using forward(1) by simp
    with less.prems(1) forward(2) have "p \<noteq> n" by auto
    have "settle p v ?ats ! n = ?ats ! n"
      using forward(4) less.prems(1) same \<open>p \<noteq> n\<close> by (intro less.IH) simp_all
    then show ?thesis using forward less.prems(2) by (simp add: settle_forward)
  qed
qed

lemma quiet_update:
  assumes "quiet n s" and "j \<noteq> n" and "j < length (attempts s)"
      and "chained a = chained (attempts s ! j)"
  shows "quiet n (s\<lparr> attempts := (attempts s)[j := a] \<rparr>)"
  using assms by (simp add: quiet_def map_chained_update)

lemma quiet_settle:
  assumes "quiet n s" and "j \<noteq> n"
  shows "quiet n (s\<lparr> attempts := settle j v (attempts s) \<rparr>)"
  using assms by (simp add: quiet_def settle_chained settle_elsewhere)

lemma quiet_timer:
  assumes "quiet n s" and "owner cb \<noteq> n"
  shows "quiet n (s\<lparr> timers := timers s @ [\<lparr> callback = cb, delay = d \<rparr>] \<rparr>)"
  using assms by (auto simp: quiet_def)

lemma quiet_retryIfPossible:
  assumes "quiet n s" and "j \<noteq> n"
  shows "quiet n (retryIfPossible this j cause res s)"
proof (cases "retries_of this (params (attempts s ! j)) \<noteq> 0
              \<and> isRetryable_of this (params (attempts s ! j)) (xhr (attempts s ! j)) cause res")
  case True
  then show ?thesis
    using assms by (simp add: retry_scheduled quiet_timer owner_def)
next
  case False
  then have "retryIfPossible this j cause res s
      = s\<lparr> attempts := settle j (Reject [(''xhr'', XhrValue j), (''cause'', CauseValue cause)]) (attempts s) \<rparr>"
    by (intro retry_declined) blast
  then show ?thesis using assms by (simp add: quiet_settle)
qed

lemma quiet_onReadyStateChange:
  assumes "quiet n s" and "j \<noteq> n"
  shows "quiet n (onReadyStateChange j s)"
  using assms
  by (cases "readyState (xhr (attempts s ! j))")
     (simp_all add: onReadyStateChange_def quiet_timer owner_def)

lemma quiet_onDone:
  assumes "quiet n s" and "j \<noteq> n" and "j < length (attempts s)"
  shows "quiet n (onDone this j s)"
proof (cases "outcome (attempts s ! j) \<noteq> Outcome_None")
  case True
  then show ?thesis using assms by (simp add: onDone_def Let_def)
next
  case False
  let ?s1 = "s\<lparr> attempts := (attempts s)[j := (attempts s ! j)\<lparr> outcome := Outcome_Done \<rparr>] \<rparr>"
  have q1: "quiet n ?s1"
    using assms by (intro quiet_update) simp_all
  show ?thesis
  proof (cases "responseData (attempts s ! j)")
    case None
    with False q1 show ?thesis by (simp add: onDone_def Let_def)
  next
    case (Some data)
    show ?thesis
    proof (cases "400 \<le> status (xhr (attempts s ! j))")
      case True
      with False Some show ?thesis
        using quiet_retryIfPossible [OF q1 assms(2)] by (simp add: onDone_def Let_def)
    next
      case no: False
      with False Some show ?thesis
        using quiet_settle [OF q1 assms(2)] by (simp add: onDone_def Let_def)
    qed
  qed
qed

lemma chained_makeRequest:
  "map chained (attempts (makeRequest this m p ps a c s)) = map chained (attempts s) @ [c]"
  by (subst attempts_makeRequest) simp

lemma quiet_makeRequest:
  assumes "quiet n s" and "c \<noteq> Some n"
  shows "quiet n (makeRequest this m p ps a c s)"
proof -
  have lt: "n < length (attempts s)" using assms(1) by (simp add: quiet_def)
  then have "attempts (makeRequest this m p ps a c s) ! n = attempts s ! n"
    by (rule nth_old_makeRequest)
  then show ?thesis
    using assms lt by (simp add: quiet_def chained_makeRequest)
qed

lemma quiet_dispatch:
  assumes "quiet n s" and "j \<noteq> n"
  shows "quiet n (dispatch this j ev x s)"
proof (cases "j < length (attempts s)")
  case False
  then show ?thesis using assms by (simp add: dispatch_def)
next
  case True
  let ?s' = "s\<lparr> attempts := (attempts s)[j := (attempts s ! j)\<lparr> xhr := x \<rparr>] \<rparr>"
  have q: "quiet n ?s'"
    using assms True by (intro quiet_update) simp_all
  show ?thesis
    using True quiet_onReadyStateChange [OF q assms(2)]
      quiet_retryIfPossible [OF q assms(2)]
    by (cases ev) (simp_all add: dispatch_def Let_def onError_def onAbort_def onTimeout_def)
qed

lemma quiet_elapse:
  assumes "quiet n s" and "wellformed s"
  shows "quiet n (elapse this k s)"
proof (cases "k < length (timers s)")
  case False
  then show ?thesis using assms by (simp add: elapse_def)
next
  case True
  let ?s' = "s\<lparr> timers := take k (timers s) @ drop (Suc k) (timers s) \<rparr>"
  have "set (take k (timers s) @ drop (Suc k) (timers s)) \<subseteq> set (timers s)"
    by (auto dest: in_set_takeD in_set_dropD)
  then have q: "quiet n ?s'"
    using assms(1) by (auto simp: quiet_def)
  have mem: "timers s ! k \<in> set (timers s)" using True by simp
  then have own: "owner (callback (timers s ! k)) \<noteq> n"
    using assms(1) by (auto simp: quiet_def)
  have inside: "owner (callback (timers s ! k)) < length (attempts s)"
    using assms(2) mem by (simp add: wellformed_def list_all_iff)
  show ?thesis
  proof (cases "callback (timers s ! k)")
    case (Callback_onDone j)
    with own inside have "j \<noteq> n" "j < length (attempts ?s')" by (simp_all add: owner_def)
    with q have "quiet n (onDone this j ?s')" by (intro quiet_onDone)
    with True Callback_onDone show ?thesis by (simp add: elapse_def Let_def)
  next
    case (Callback_doRetry j np)
    with own have "j \<noteq> n" by (simp add: owner_def)
    with q have "quiet n (doRetry this j np ?s')"
      unfolding doRetry_def Let_def by (intro quiet_makeRequest) simp_all
    with True Callback_doRetry show ?thesis by (simp add: elapse_def Let_def)
  qed
qed

lemma wellformed_iff:
  "wellformed s \<longleftrightarrow>
     (\<forall>t \<in> set (timers s). owner (callback t) < length (attempts s))
     \<and> (\<forall>c \<in> set (map chained (attempts s)). points_inside c (length (attempts s)))"
  by (simp add: wellformed_def list_all_iff)

lemma points_inside_mono: "points_inside c n \<Longrightarrow> n \<le> m \<Longrightarrow> points_inside c m"
  by (cases c) (simp_all add: points_inside_def)

lemma wellformed_update:
  assumes "wellformed s" and "j < length (attempts s)" and "chained a = chained (attempts s ! j)"
  shows "wellformed (s\<lparr> attempts := (attempts s)[j := a] \<rparr>)"
  using assms by (simp add: wellformed_iff map_chained_update)

lemma wellformed_settle:
  assumes "wellformed s"
  shows "wellformed (s\<lparr> attempts := settle j v (attempts s) \<rparr>)"
  using assms by (simp add: wellformed_iff settle_chained)

lemma wellformed_timer:
  assumes "wellformed s" and "owner cb < length (attempts s)"
  shows "wellformed (s\<lparr> timers := timers s @ [\<lparr> callback = cb, delay = d \<rparr>] \<rparr>)"
  using assms by (auto simp: wellformed_iff)

lemma wellformed_retryIfPossible:
  assumes "wellformed s" and "j < length (attempts s)"
  shows "wellformed (retryIfPossible this j cause res s)"
proof (cases "retries_of this (params (attempts s ! j)) \<noteq> 0
              \<and> isRetryable_of this (params (attempts s ! j)) (xhr (attempts s ! j)) cause res")
  case True
  then show ?thesis
    using assms by (simp add: retry_scheduled wellformed_timer owner_def)
next
  case False
  then have "retryIfPossible this j cause res s
      = s\<lparr> attempts := settle j (Reject [(''xhr'', XhrValue j), (''cause'', CauseValue cause)]) (attempts s) \<rparr>"
    by (intro retry_declined) blast
  then show ?thesis using assms by (simp add: wellformed_settle)
qed

lemma wellformed_onReadyStateChange:
  assumes "wellformed s" and "j < length (attempts s)"
  shows "wellformed (onReadyStateChange j s)"
  using assms
  by (cases "readyState (xhr (attempts s ! j))")
     (simp_all add: onReadyStateChange_def wellformed_timer owner_def)

lemma wellformed_onDone:
  assumes "wellformed s" and "j < length (attempts s)"
  shows "wellformed (onDone this j s)"
proof (cases "outcome (attempts s ! j) \<noteq> Outcome_None")
  case True
  then show ?thesis using assms by (simp add: onDone_def Let_def)
next
  case False
  let ?s1 = "s\<lparr> attempts := (attempts s)[j := (attempts s ! j)\<lparr> outcome := Outcome_Done \<rparr>] \<rparr>"
  have w1: "wellformed ?s1"
    using assms by (intro wellformed_update) simp_all
  have j1: "j < length (attempts ?s1)" using assms(2) by simp
  show ?thesis
  proof (cases "responseData (attempts s ! j)")
    case None
    with False w1 show ?thesis by (simp add: onDone_def Let_def)
  next
    case (Some data)
    show ?thesis
    proof (cases "400 \<le> status (xhr (attempts s ! j))")
      case True
      with False Some show ?thesis
        using wellformed_retryIfPossible [OF w1 j1] by (simp add: onDone_def Let_def)
    next
      case no: False
      with False Some show ?thesis
        using wellformed_settle [OF w1] by (simp add: onDone_def Let_def)
    qed
  qed
qed

lemma wellformed_makeRequest:
  assumes "wellformed s" and "points_inside c (length (attempts s))"
  shows "wellformed (makeRequest this m p ps a c s)"
proof -
  have "\<forall>t \<in> set (timers s). owner (callback t) < Suc (length (attempts s))"
    using assms(1) by (auto simp: wellformed_iff)
  moreover have "\<forall>d \<in> set (map chained (attempts s) @ [c]). points_inside d (Suc (length (attempts s)))"
    using assms by (auto simp: wellformed_iff intro: points_inside_mono)
  ultimately show ?thesis
    by (simp add: wellformed_iff chained_makeRequest)
qed

lemma wellformed_step:
  assumes "wellformed s"
  shows "wellformed (step this s input)"
proof (cases input)
  case (Call_request m p ps)
  then show ?thesis
    using assms by (simp add: request_def wellformed_makeRequest points_inside_def)
next
  case (Dispatch j ev x)
  show ?thesis
  proof (cases "j < length (attempts s)")
    case False
    with Dispatch assms show ?thesis by (simp add: dispatch_def)
  next
    case True
    let ?s' = "s\<lparr> attempts := (attempts s)[j := (attempts s ! j)\<lparr> xhr := x \<rparr>] \<rparr>"
    have w: "wellformed ?s'"
      using assms True by (intro wellformed_update) simp_all
    have j': "j < length (attempts ?s')" using True by simp
    show ?thesis
      using True Dispatch wellformed_onReadyStateChange [OF w j']
        wellformed_retryIfPossible [OF w j']
      by (cases ev) (simp_all add: dispatch_def Let_def onError_def onAbort_def onTimeout_def)
  qed
next
  case (Elapse k)
  show ?thesis
  proof (cases "k < length (timers s)")
    case False
    with Elapse assms show ?thesis by (simp add: elapse_def)
  next
    case True
    let ?s' = "s\<lparr> timers := take k (timers s) @ drop (Suc k) (timers s) \<rparr>"
    have "set (take k (timers s) @ drop (Suc k) (timers s)) \<subseteq> set (timers s)"
      by (auto dest: in_set_takeD in_set_dropD)
    then have w: "wellformed ?s'"
      using assms by (auto simp: wellformed_iff)
    have "timers s ! k \<in> set (timers s)" using True by simp
    then have inside: "owner (callback (timers s ! k)) < length (attempts s)"
      using assms by (simp add: wellformed_iff)
    show ?thesis
    proof (cases "callback (timers s ! k)")
      case (Callback_onDone j)
      with inside have "j < length (attempts ?s')" by (simp add: owner_def)
      with w have "wellformed (onDone this j ?s')" by (rule wellformed_onDone)
      with True Elapse Callback_onDone show ?thesis by (simp add: elapse_def Let_def)
    next
      case (Callback_doRetry j np)
      with inside have "points_inside (Some j) (length (attempts ?s'))"
        by (simp add: owner_def points_inside_def)
      with w have "wellformed (doRetry this j np ?s')"
        unfolding doRetry_def Let_def by (rule wellformed_makeRequest)
      with True Elapse Callback_doRetry show ?thesis by (simp add: elapse_def Let_def)
    qed
  qed
qed

text \<open>
  The announcement of a phase other than \<^verbatim>\<open>Done\<close> only refreshes what is known of the
  transport.
\<close>

lemma quiet_phase:
  assumes "quiet n s" and "readyState x \<noteq> Done"
  shows "quiet n (dispatch this n Event_readystatechange x s)"
proof -
  let ?s' = "s\<lparr> attempts := (attempts s)[n := (attempts s ! n)\<lparr> xhr := x \<rparr>] \<rparr>"
  have lt: "n < length (attempts s)" using assms(1) by (simp add: quiet_def)
  have "onReadyStateChange n ?s' = ?s'"
    using lt assms(2) by (cases "readyState x") (simp_all add: onReadyStateChange_def)
  then have d: "dispatch this n Event_readystatechange x s = ?s'"
    using lt by (simp add: dispatch_def Let_def)
  have "map chained ((attempts s)[n := (attempts s ! n)\<lparr> xhr := x \<rparr>]) = map chained (attempts s)"
    using lt by (intro map_chained_update) simp_all
  then have "quiet n ?s'"
    using assms(1) lt by (simp add: quiet_def)
  then show ?thesis by (simp only: d)
qed

lemma quiet_step:
  assumes "quiet n s" and "wellformed s" and "\<not> terminal_event_of n input"
  shows "quiet n (step this s input)"
proof (cases input)
  case (Call_request m p ps)
  then show ?thesis using assms(1) by (simp add: request_def quiet_makeRequest)
next
  case (Dispatch j ev x)
  show ?thesis
  proof (cases "j = n")
    case False
    with Dispatch assms(1) show ?thesis by (simp add: quiet_dispatch)
  next
    case True
    with Dispatch assms(3) have "ev = Event_readystatechange" and "readyState x \<noteq> Done"
      by (cases ev; simp)+
    with True Dispatch assms(1) show ?thesis by (simp add: quiet_phase)
  qed
next
  case (Elapse k)
  with assms(1,2) show ?thesis by (simp add: quiet_elapse)
qed

lemma quiet_run:
  "quiet n s \<Longrightarrow> wellformed s \<Longrightarrow> list_all (\<lambda>x. \<not> terminal_event_of n x) ins \<Longrightarrow>
   quiet n (run this s ins) \<and> wellformed (run this s ins)"
proof (induction ins arbitrary: s)
  case Nil
  then show ?case by simp
next
  case (Cons x ins)
  from Cons.prems have "quiet n (step this s x)" and "wellformed (step this s x)"
    by (simp_all add: quiet_step wellformed_step)
  with Cons.prems(3) Cons.IH [of "step this s x"] show ?case by simp
qed

lemma quiet_new_attempt:
  assumes "wellformed s" and "points_inside c (length (attempts s))"
  shows "quiet (length (attempts s)) (makeRequest this m p ps a c s)"
proof -
  let ?n = "length (attempts s)"
  have "?n \<notin> set (map (\<lambda>t. owner (callback t)) (timers s))"
    using assms(1) by (auto simp: wellformed_iff)
  moreover have "\<not> points_inside (Some ?n) ?n" by (simp add: points_inside_def)
  then have "Some ?n \<notin> set (map chained (attempts s) @ [c])"
    using assms by (auto simp: wellformed_iff)
  moreover have "settled (attempts (makeRequest this m p ps a c s) ! ?n) = []"
    by (simp add: nth_new_makeRequest)
  ultimately show ?thesis
    by (simp add: quiet_def chained_makeRequest)
qed

lemma wellformed_initial: "wellformed initial"
  by (simp add: wellformed_def initial_def)

text \<open>No handler makes a call on a transport; only \<^verbatim>\<open>_makeRequest\<close> does, on the new one.\<close>

lemma xhrCalls_retryIfPossible:
  "map xhrCalls (attempts (retryIfPossible this j cause res s)) = map xhrCalls (attempts s)"
  by (simp add: retryIfPossible_def Let_def settle_xhrCalls)

lemma xhrCalls_onReadyStateChange:
  "map xhrCalls (attempts (onReadyStateChange j s)) = map xhrCalls (attempts s)"
  by (cases "readyState (xhr (attempts s ! j))") (simp_all add: onReadyStateChange_def)

lemma xhrCalls_onDone:
  "map xhrCalls (attempts (onDone this j s)) = map xhrCalls (attempts s)"
  by (simp add: onDone_def Let_def xhrCalls_retryIfPossible settle_xhrCalls map_update_same
           split: option.split)

lemma xhrCalls_dispatch:
  "map xhrCalls (attempts (dispatch this j ev x s)) = map xhrCalls (attempts s)"
  by (cases ev)
     (simp_all add: dispatch_def Let_def onError_def onAbort_def onTimeout_def
        xhrCalls_retryIfPossible xhrCalls_onReadyStateChange map_update_same)

lemma xhrCalls_makeRequest:
  "\<exists>calls. map xhrCalls (attempts (makeRequest this m p ps a c s)) = map xhrCalls (attempts s) @ calls"
  by (simp add: makeRequest_def Let_def)

lemma xhrCalls_step:
  "\<exists>calls. map xhrCalls (attempts (step this s input)) = map xhrCalls (attempts s) @ calls"
proof (cases input)
  case (Call_request m p ps)
  then show ?thesis by (simp add: request_def xhrCalls_makeRequest)
next
  case (Dispatch j ev x)
  then show ?thesis by (simp add: xhrCalls_dispatch)
next
  case (Elapse k)
  show ?thesis
  proof (cases "k < length (timers s)")
    case False
    with Elapse show ?thesis by (simp add: elapse_def)
  next
    case True
    show ?thesis
    proof (cases "callback (timers s ! k)")
      case (Callback_onDone j)
      with True Elapse show ?thesis by (simp add: elapse_def Let_def xhrCalls_onDone)
    next
      case (Callback_doRetry j np)
      with True Elapse show ?thesis
        using xhrCalls_makeRequest
          [of this "method' (attempts s ! j)" "path (attempts s ! j)" np None "Some j"
              "s\<lparr> timers := take k (timers s) @ drop (Suc k) (timers s) \<rparr>"]
        by (simp add: elapse_def Let_def doRetry_def)
    qed
  qed
qed

lemma xhrCalls_run:
  "\<exists>calls. map xhrCalls (attempts (run this s ins)) = map xhrCalls (attempts s) @ calls"
proof (induction ins arbitrary: s)
  case Nil
  show ?case by simp
next
  case (Cons x ins)
  from xhrCalls_step [of this s x] obtain c1 where
    c1: "map xhrCalls (attempts (step this s x)) = map xhrCalls (attempts s) @ c1" ..
  from Cons.IH [of "step this s x"] obtain c2 where
    "map xhrCalls (attempts (run this (step this s x) ins))
       = map xhrCalls (attempts (step this s x)) @ c2" ..
  with c1 show ?case by simp
qed

lemma xhrCalls_run_nth:
  assumes "n < length (attempts s)"
  shows "xhrCalls (attempts (run this s ins) ! n) = xhrCalls (attempts s ! n)"
proof -
  from xhrCalls_run [of this s ins] obtain calls where
    eq: "map xhrCalls (attempts (run this s ins)) = map xhrCalls (attempts s) @ calls" ..
  then have "length (attempts (run this s ins)) = length (attempts s) + length calls"
    by (metis length_append length_map)
  with assms have lt: "n < length (attempts (run this s ins))" by simp
  have "xhrCalls (attempts (run this s ins) ! n) = map xhrCalls (attempts (run this s ins)) ! n"
    using lt by simp
  also have "\<dots> = (map xhrCalls (attempts s) @ calls) ! n" by (simp only: eq)
  also have "\<dots> = xhrCalls (attempts s ! n)" using assms by (simp add: nth_append)
  finally show ?thesis .
qed

section \<open>The executor: the claims\<close>

lemmas machine_eval = run_def dispatch_def elapse_def request_def makeRequest_def retryIfPossible_def
  doRetry_def onError_def onAbort_def onTimeout_def onDone_def onReadyStateChange_def responseData_def
  settle.simps initial_def new_HttpClient_def new_XMLHttpRequest_def mergeHeaders_def truthy_body_def
  defineProperty_def Object_keys_def getProperty_def arrayIndex_def parse_nat_def digit_value_def
  allocRequestId_def MAX_SAFE_INTEGER_def backoff_def power_of_two_def numeral_eq_enat Let_def
  retries_of_def isRetryable_of_def
  show_int_def show_nat.simps digit_char_def retryNetworkErrors_def
  client0_def params0_def failed_xhr_def unavailable_xhr_def

text \<open>
  Every header of the merged object is sent, in the order of \<^verbatim>\<open>Object.keys\<close>: with
  the client's headers \<^verbatim>\<open>{ b: '1', '10': 'x' }\<close> and the request's headers
  \<^verbatim>\<open>{ a: '2', '2': 'y', b: '3' }\<close> the array indices come first and \<^verbatim>\<open>b\<close> keeps
  its place with the later value.
\<close>

lemma set_Object_keys: "set (Object_keys obj) = fst ` set obj"
  by (auto simp: Object_keys_def Let_def)

lemma request_headers_in_key_order:
  "xhrCalls (last (attempts
      (post (client0\<lparr> headers' := [(''b'', ''1''), (''10'', ''x'')] \<rparr>) ''/submit''
         (params0\<lparr> headers := Some [(''a'', ''2''), (''2'', ''y''), (''b'', ''3'')] \<rparr>) initial)))
     = [Xhr_addEventListener ''readystatechange'', Xhr_addEventListener ''readystatechange'',
        Xhr_addEventListener ''error'', Xhr_addEventListener ''abort'',
        Xhr_addEventListener ''timeout'', Xhr_open ''POST'' ''https://example.org:443/submit'',
        Xhr_setRequestHeader ''2'' ''y'', Xhr_setRequestHeader ''10'' ''x'',
        Xhr_setRequestHeader ''b'' ''3'', Xhr_setRequestHeader ''a'' ''2'',
        Xhr_send (StringBody ''{}'')]"
  by (simp add: machine_eval post_def)

text \<open>
  C1 does not hold for the code. Only \<^verbatim>\<open>onDone\<close> reads and sets the latch;
  \<^verbatim>\<open>onError\<close>, \<^verbatim>\<open>onAbort\<close> and \<^verbatim>\<open>onTimeout\<close> go to \<^verbatim>\<open>retryIfPossible\<close>
  and leave the latch of every attempt as it was; the members \<^verbatim>\<open>Error\<close>,
  \<^verbatim>\<open>Abort\<close> and \<^verbatim>\<open>Timeout\<close> of \<^verbatim>\<open>Outcome\<close> are never assigned. After a
  network error (the phase \<^verbatim>\<open>Done\<close>, the \<^verbatim>\<open>error\<close> event, then the 10 ms
  timer) the latch is still \<^verbatim>\<open>None\<close> when the error has been handled and the
  promise rejected, and \<^verbatim>\<open>onDone\<close> then calls \<^verbatim>\<open>resolve\<close> with the response
  of status 0: both functions are called for one attempt. With one retry left, the error
  puts the retry into a 500 ms timer, and \<^verbatim>\<open>onDone\<close> resolves the caller's promise
  with the response of status 0 before any retry has run.
\<close>

theorem error_leaves_latch_open:
  "map outcome (attempts (onError this i s)) = map outcome (attempts s)
   \<and> map outcome (attempts (onAbort this i s)) = map outcome (attempts s)
   \<and> map outcome (attempts (onTimeout this i s)) = map outcome (attempts s)
   \<and> outcome (attempts (run client0 initial
      [Call_request ''POST'' ''/submit'' params0,
       Dispatch 0 Event_readystatechange failed_xhr,
       Dispatch 0 Event_error failed_xhr]) ! 0) = Outcome_None
   \<and> settled (attempts (run client0 initial
      [Call_request ''POST'' ''/submit'' params0,
       Dispatch 0 Event_readystatechange failed_xhr,
       Dispatch 0 Event_error failed_xhr]) ! 0)
       = [Reject [(''xhr'', XhrValue 0), (''cause'', CauseValue Error)]]
   \<and> settled (attempts (run client0 initial
      [Call_request ''POST'' ''/submit'' params0,
       Dispatch 0 Event_readystatechange failed_xhr,
       Dispatch 0 Event_error failed_xhr,
       Elapse 0]) ! 0)
       = [Reject [(''xhr'', XhrValue 0), (''cause'', CauseValue Error)],
          Resolve \<lparr> res_xhr = 0, statusCode = 0, res_body = StringBody [],
                    res_headers = [([], [])], rawHeaders = [([], [])] \<rparr>]
   \<and> settled (attempts (run client0 initial
      [Call_request ''POST'' ''/submit'' (params0\<lparr> retries := Some 1 \<rparr>),
       Dispatch 0 Event_readystatechange failed_xhr,
       Dispatch 0 Event_error failed_xhr,
       Elapse 0]) ! 0)
       = [Resolve \<lparr> res_xhr = 0, statusCode = 0, res_body = StringBody [],
                    res_headers = [([], [])], rawHeaders = [([], [])] \<rparr>]
   \<and> map delay (timers (run client0 initial
      [Call_request ''POST'' ''/submit'' (params0\<lparr> retries := Some 1 \<rparr>),
       Dispatch 0 Event_readystatechange failed_xhr,
       Dispatch 0 Event_error failed_xhr,
       Elapse 0])) = [500]"
proof -
  have "map outcome (attempts (onError this i s)) = map outcome (attempts s)"
    and "map outcome (attempts (onAbort this i s)) = map outcome (attempts s)"
    and "map outcome (attempts (onTimeout this i s)) = map outcome (attempts s)"
    by (simp_all add: onError_def onAbort_def onTimeout_def outcome_retryIfPossible)
  then show ?thesis
    by (simp add: machine_eval header_eval)
qed

text \<open>
  C2 does not hold for the code in its first half. \<^verbatim>\<open>doRetry\<close> calls
  \<^verbatim>\<open>_makeRequest(method, path, newParams)\<close> without the fourth argument, so every retry
  starts with the default \<^verbatim>\<open>attempt = 1\<close>, not with the attempt number of the failed
  attempt plus one. The second half holds: the retry carries the \<^verbatim>\<open>newParams\<close>, whose
  \<^verbatim>\<open>retries\<close> are one less.
\<close>

theorem retry_keeps_attempt_number:
  "attempt (last (attempts (doRetry this i newParams s))) = 1
   \<and> params (last (attempts (doRetry this i newParams s))) = newParams
   \<and> map attempt (attempts (run client0 initial
        [Call_request ''POST'' ''/submit'' (params0\<lparr> retries := Some 2 \<rparr>),
         Dispatch 0 Event_error failed_xhr,
         Elapse 0])) = [1, 1]
   \<and> map (\<lambda>a. retries (params a)) (attempts (run client0 initial
        [Call_request ''POST'' ''/submit'' (params0\<lparr> retries := Some 2 \<rparr>),
         Dispatch 0 Event_error failed_xhr,
         Elapse 0])) = [Some 2, Some 1]"
proof -
  have "attempt (last (attempts (doRetry this i newParams s))) = 1"
    and "params (last (attempts (doRetry this i newParams s))) = newParams"
    by (simp_all add: doRetry_def makeRequest_def Let_def)
  moreover have "map attempt (attempts (run client0 initial
        [Call_request ''POST'' ''/submit'' (params0\<lparr> retries := Some 2 \<rparr>),
         Dispatch 0 Event_error failed_xhr,
         Elapse 0])) = [1, 1]"
    by (simp add: machine_eval)
  moreover have "map (\<lambda>a. retries (params a)) (attempts (run client0 initial
        [Call_request ''POST'' ''/submit'' (params0\<lparr> retries := Some 2 \<rparr>),
         Dispatch 0 Event_error failed_xhr,
         Elapse 0])) = [Some 2, Some 1]"
    by (simp add: machine_eval)
  ultimately show ?thesis by blast
qed

text \<open>
  A chain in which every attempt meets one failure, handled by one call of
  \<^verbatim>\<open>retryIfPossible\<close>: a budget of \<open>R\<close> gives exactly \<open>R + 1\<close> attempts, then the
  rejection with the cause and the transport of the last attempt, and no timer is left. A
  failure by status (the phase \<^verbatim>\<open>Done\<close>, then the 10 ms timer) is of this kind. A
  failure of the transport itself is not: its event comes after the announcement of the phase
  \<^verbatim>\<open>Done\<close>, whose timer is then waiting.
\<close>

lemma one_failure_per_attempt:
  assumes policy: "\<forall>y res. isRetryable_of this ps y c res"
      and budget: "retries_of this ps = int R"
      and failure: "shows_failure c x ps"
      and idle: "timers s0 = []"
  shows "length (attempts (run this s0
              (Call_request m p ps # failing_chain c x (length (attempts s0)) R)))
           = length (attempts s0) + R + 1
       \<and> settled (attempts (run this s0
              (Call_request m p ps # failing_chain c x (length (attempts s0)) R))
            ! length (attempts s0))
           = [Reject [(''xhr'', XhrValue (length (attempts s0) + R)), (''cause'', CauseValue c)]]
       \<and> timers (run this s0
              (Call_request m p ps # failing_chain c x (length (attempts s0)) R)) = []
       \<and> attempt (attempts (run this s0 [Call_request m p ps]) ! length (attempts s0)) = 1"
proof -
  define n where "n = length (attempts s0)"
  define s1 where "s1 = makeRequest this m p ps None None s0"
  have new: "attempts s1 ! n =
       \<lparr> requestId = fst (allocRequestId (nextRequestId s0)), attempt = 1,
          method' = m, path = p, params = ps, outcome = Outcome_None, xhr = new_XMLHttpRequest,
          xhrCalls = xhrCalls (last (attempts s1)), settled = [], chained = None \<rparr>"
    unfolding s1_def using nth_new_makeRequest [of n s0 this m p ps None None]
    by (simp add: n_def)
  have pol: "\<And>y res. isRetryable_of this ps y c res" using policy by simp
  have main: "length (attempts (run this s1 (failing_chain c x n R))) = Suc (n + R)
         \<and> timers (run this s1 (failing_chain c x n R)) = []
         \<and> (\<forall>j. n \<le> j \<and> j \<le> n + R \<longrightarrow>
               settled (attempts (run this s1 (failing_chain c x n R)) ! j)
                 = [Reject [(''xhr'', XhrValue (n + R)), (''cause'', CauseValue c)]])"
  proof (rule failing_chain_run [where pol = "isRetryable_of this ps" and ?i0.0 = n])
    show "\<And>y res. isRetryable_of this ps y c res" by (rule pol)
    show "timers s1 = []" by (simp add: s1_def idle)
    show "length (attempts s1) = Suc n" by (simp add: s1_def n_def)
    show "outcome (attempts s1 ! n) = Outcome_None" by (simp add: new)
    show "retries_of this (params (attempts s1 ! n)) = int R" by (simp add: new budget)
    show "isRetryable_of this (params (attempts s1 ! n)) = isRetryable_of this ps" by (simp add: new)
    show "shows_failure c x (params (attempts s1 ! n))" by (simp add: new failure)
    show "n \<le> n" by simp
    show "\<forall>j. n < j \<and> j \<le> n \<longrightarrow> chained (attempts s1 ! j) = Some (j - 1)" by auto
    show "\<forall>j. n \<le> j \<and> j \<le> n \<longrightarrow> settled (attempts s1 ! j) = []"
    proof (intro allI impI)
      fix j
      assume "n \<le> j \<and> j \<le> n"
      then have "j = n" by simp
      then show "settled (attempts s1 ! j) = []" by (simp add: new)
    qed
  qed
  have step1: "run this s0 (Call_request m p ps # ins) = run this s1 ins" for ins
    by (simp add: s1_def request_def)
  have "run this s0 [Call_request m p ps] = s1"
    by (simp add: s1_def request_def)
  then have "attempt (attempts (run this s0 [Call_request m p ps]) ! n) = 1"
    by (simp only: new Attempt.simps)
  with main show ?thesis
    unfolding n_def [symmetric] step1 by simp
qed

text \<open>
  C3 does not hold for the code when the failure is one of the transport: a network error,
  a timeout or an abort. The transport announces the phase \<^verbatim>\<open>Done\<close> with status 0
  before it fires the event of the failure, so the 10 ms timer of \<^verbatim>\<open>onDone\<close> is waiting
  when the handler of the failure runs. With a retry left, the handler puts the retry into
  its timer of 500 ms and leaves the latch open; \<^verbatim>\<open>onDone\<close> then resolves the caller's
  promise with the response of status 0, before the retry has started. The retry still runs
  and fails: \<open>R + 1\<close> attempts are made and sent, but the rejection of the last one reaches a
  promise that is already resolved. What does hold: with no retry left the handler of the
  failure rejects at once and sets no retry timer, and a failure by status, which
  \<^verbatim>\<open>onDone\<close> handles itself once the latch is set, goes through its \<open>R + 1\<close> attempts
  and then rejects.
\<close>

theorem transport_failure_resolves_chain:
  "length (attempts (run client0 initial
      [Call_request ''POST'' ''/submit'' (params0\<lparr> retries := Some 1 \<rparr>),
       Dispatch 0 Event_readystatechange failed_xhr, Dispatch 0 Event_error failed_xhr,
       Elapse 0])) = 1
   \<and> settled (attempts (run client0 initial
      [Call_request ''POST'' ''/submit'' (params0\<lparr> retries := Some 1 \<rparr>),
       Dispatch 0 Event_readystatechange failed_xhr, Dispatch 0 Event_error failed_xhr,
       Elapse 0]) ! 0)
       = [Resolve \<lparr> res_xhr = 0, statusCode = 0, res_body = StringBody [],
                    res_headers = [([], [])], rawHeaders = [([], [])] \<rparr>]
   \<and> timers (run client0 initial
      [Call_request ''POST'' ''/submit'' (params0\<lparr> retries := Some 1 \<rparr>),
       Dispatch 0 Event_readystatechange failed_xhr, Dispatch 0 Event_error failed_xhr,
       Elapse 0])
       = [\<lparr> callback = Callback_doRetry 0 (params0\<lparr> retries := Some 0 \<rparr>), delay = enat 500 \<rparr>]
   \<and> map (\<lambda>a. last (xhrCalls a)) (attempts (run client0 initial
      [Call_request ''POST'' ''/submit'' (params0\<lparr> retries := Some 1 \<rparr>),
       Dispatch 0 Event_readystatechange failed_xhr, Dispatch 0 Event_error failed_xhr,
       Elapse 0, Elapse 0,
       Dispatch 1 Event_readystatechange failed_xhr, Dispatch 1 Event_error failed_xhr,
       Elapse 0]))
       = [Xhr_send (StringBody ''{}''), Xhr_send (StringBody ''{}'')]
   \<and> settled (attempts (run client0 initial
      [Call_request ''POST'' ''/submit'' (params0\<lparr> retries := Some 1 \<rparr>),
       Dispatch 0 Event_readystatechange failed_xhr, Dispatch 0 Event_error failed_xhr,
       Elapse 0, Elapse 0,
       Dispatch 1 Event_readystatechange failed_xhr, Dispatch 1 Event_error failed_xhr,
       Elapse 0]) ! 0)
       = [Resolve \<lparr> res_xhr = 0, statusCode = 0, res_body = StringBody [],
                    res_headers = [([], [])], rawHeaders = [([], [])] \<rparr>,
          Reject [(''xhr'', XhrValue 1), (''cause'', CauseValue Error)]]
   \<and> settled (attempts (run client0 initial
      [Call_request ''POST'' ''/submit'' (params0\<lparr> retries := Some 1 \<rparr>),
       Dispatch 0 Event_readystatechange failed_xhr, Dispatch 0 Event_timeout failed_xhr,
       Elapse 0, Elapse 0,
       Dispatch 1 Event_readystatechange failed_xhr, Dispatch 1 Event_timeout failed_xhr,
       Elapse 0]) ! 0)
       = [Resolve \<lparr> res_xhr = 0, statusCode = 0, res_body = StringBody [],
                    res_headers = [([], [])], rawHeaders = [([], [])] \<rparr>,
          Reject [(''xhr'', XhrValue 1), (''cause'', CauseValue Timeout)]]
   \<and> settled (attempts (run client0 initial
      [Call_request ''POST'' ''/submit'' params0,
       Dispatch 0 Event_readystatechange failed_xhr, Dispatch 0 Event_timeout failed_xhr]) ! 0)
       = [Reject [(''xhr'', XhrValue 0), (''cause'', CauseValue Timeout)]]
   \<and> map callback (timers (run client0 initial
      [Call_request ''POST'' ''/submit'' params0,
       Dispatch 0 Event_readystatechange failed_xhr, Dispatch 0 Event_timeout failed_xhr]))
       = [Callback_onDone 0]
   \<and> map (\<lambda>a. settled a) (attempts (run client0 initial
      [Call_request ''POST'' ''/submit''
         (params0\<lparr> retries := Some 1, isRetryable := Some (\<lambda>x cause res. True) \<rparr>),
       Dispatch 0 Event_readystatechange unavailable_xhr, Elapse 0, Elapse 0,
       Dispatch 1 Event_readystatechange unavailable_xhr, Elapse 0]))
       = [[Reject [(''xhr'', XhrValue 1), (''cause'', CauseValue Status)]],
          [Reject [(''xhr'', XhrValue 1), (''cause'', CauseValue Status)]]]"
proof -
  let ?res0 = "\<lparr> res_xhr = 0, statusCode = 0, res_body = StringBody [],
                 res_headers = [([], [])], rawHeaders = [([], [])] \<rparr>"
  let ?early = "run client0 initial
      [Call_request ''POST'' ''/submit'' (params0\<lparr> retries := Some 1 \<rparr>),
       Dispatch 0 Event_readystatechange failed_xhr, Dispatch 0 Event_error failed_xhr,
       Elapse 0]"
  let ?chain = "\<lambda>ev. run client0 initial
      [Call_request ''POST'' ''/submit'' (params0\<lparr> retries := Some 1 \<rparr>),
       Dispatch 0 Event_readystatechange failed_xhr, Dispatch 0 ev failed_xhr,
       Elapse 0, Elapse 0,
       Dispatch 1 Event_readystatechange failed_xhr, Dispatch 1 ev failed_xhr,
       Elapse 0]"
  let ?last = "run client0 initial
      [Call_request ''POST'' ''/submit'' params0,
       Dispatch 0 Event_readystatechange failed_xhr, Dispatch 0 Event_timeout failed_xhr]"
  have "length (attempts ?early) = 1"
    by (simp add: machine_eval header_eval)
  moreover have "settled (attempts ?early ! 0) = [Resolve ?res0]"
    by (simp add: machine_eval header_eval)
  moreover have "timers ?early
       = [\<lparr> callback = Callback_doRetry 0 (params0\<lparr> retries := Some 0 \<rparr>), delay = enat 500 \<rparr>]"
    by (simp add: machine_eval header_eval)
  moreover have "map (\<lambda>a. last (xhrCalls a)) (attempts (?chain Event_error))
       = [Xhr_send (StringBody ''{}''), Xhr_send (StringBody ''{}'')]"
    by (simp add: machine_eval header_eval)
  moreover have "settled (attempts (?chain Event_error) ! 0)
       = [Resolve ?res0, Reject [(''xhr'', XhrValue 1), (''cause'', CauseValue Error)]]"
    by (simp add: machine_eval header_eval)
  moreover have "settled (attempts (?chain Event_timeout) ! 0)
       = [Resolve ?res0, Reject [(''xhr'', XhrValue 1), (''cause'', CauseValue Timeout)]]"
    by (simp add: machine_eval header_eval)
  moreover have "settled (attempts ?last ! 0)
       = [Reject [(''xhr'', XhrValue 0), (''cause'', CauseValue Timeout)]]"
    by (simp add: machine_eval header_eval)
  moreover have "map callback (timers ?last) = [Callback_onDone 0]"
    by (simp add: machine_eval header_eval)
  moreover have "map (\<lambda>a. settled a) (attempts (run client0 initial
      [Call_request ''POST'' ''/submit''
         (params0\<lparr> retries := Some 1, isRetryable := Some (\<lambda>x cause res. True) \<rparr>),
       Dispatch 0 Event_readystatechange unavailable_xhr, Elapse 0, Elapse 0,
       Dispatch 1 Event_readystatechange unavailable_xhr, Elapse 0]))
       = [[Reject [(''xhr'', XhrValue 1), (''cause'', CauseValue Status)]],
          [Reject [(''xhr'', XhrValue 1), (''cause'', CauseValue Status)]]]"
    by (simp add: machine_eval header_eval)
  ultimately show ?thesis by (simp only: simp_thms)
qed






text \<open>
  C6, as stated, fails: a rejection does not carry the partial response. A reply with
  status 503 and no retry budget ends in \<^verbatim>\<open>reject({ xhr, cause })\<close>; the response
  that \<^verbatim>\<open>onDone\<close> built is given to the retry policy only.
\<close>

theorem status_rejection_has_no_response:
  "settled (attempts (run client0 initial
      [Call_request ''POST'' ''/submit'' params0,
       Dispatch 0 Event_readystatechange unavailable_xhr,
       Elapse 0]) ! 0)
     = [Reject [(''xhr'', XhrValue 0), (''cause'', CauseValue Status)]]
   \<and> \<not> carriesResponse [(''xhr'', XhrValue 0), (''cause'', CauseValue Status)]"
  by (simp add: machine_eval header_eval carriesResponse_def)

text \<open>
  C6, amended. Whenever \<^verbatim>\<open>retryIfPossible\<close> does not retry (the budget is zero or the
  policy declines), it calls \<^verbatim>\<open>reject\<close> of the attempt with the object
  \<^verbatim>\<open>{ xhr, cause }\<close>: the transport of the attempt and the cause of the failure just
  handled, \<^verbatim>\<open>Error\<close>, \<^verbatim>\<open>Abort\<close> or \<^verbatim>\<open>Timeout\<close> from the three event handlers and
  \<^verbatim>\<open>Status\<close> from \<^verbatim>\<open>onDone\<close> for a status of 400 or more. No timer is set. The
  partial response of a \<^verbatim>\<open>Status\<close> failure is an argument of the policy and is not a
  field of the rejection.
\<close>

theorem rejection_value:
  assumes "i < length (attempts s)"
      and "retries_of this (params (attempts s ! i)) = 0
           \<or> \<not> isRetryable_of this (params (attempts s ! i)) (xhr (attempts s ! i)) cause res"
  shows "settled (attempts (retryIfPossible this i cause res s) ! i)
           = settled (attempts s ! i) @ [Reject [(''xhr'', XhrValue i), (''cause'', CauseValue cause)]]
       \<and> \<not> carriesResponse [(''xhr'', XhrValue i), (''cause'', CauseValue cause)]
       \<and> timers (retryIfPossible this i cause res s) = timers s
       \<and> onError this i s = retryIfPossible this i Error None s
       \<and> onAbort this i s = retryIfPossible this i Abort None s
       \<and> onTimeout this i s = retryIfPossible this i Timeout None s
       \<and> (outcome (attempts s ! i) = Outcome_None
            \<and> responseData (attempts s ! i) = Some data
            \<and> 400 \<le> status (xhr (attempts s ! i))
          \<longrightarrow> onDone this i s
                = retryIfPossible this i Status
                    (Some \<lparr> res_xhr = i, statusCode = status (xhr (attempts s ! i)), res_body = data,
                            res_headers = fst (parseHeaders (allResponseHeaders (xhr (attempts s ! i)))),
                            rawHeaders = snd (parseHeaders (allResponseHeaders (xhr (attempts s ! i)))) \<rparr>)
                    (s\<lparr> attempts := (attempts s)[i := (attempts s ! i)\<lparr> outcome := Outcome_Done \<rparr>] \<rparr>))"
proof -
  let ?v = "Reject [(''xhr'', XhrValue i), (''cause'', CauseValue cause)]"
  have r: "retryIfPossible this i cause res s = s\<lparr> attempts := settle i ?v (attempts s) \<rparr>"
    using assms(2) by (rule retry_declined)
  have "settled (attempts (retryIfPossible this i cause res s) ! i) = settled (attempts s ! i) @ [?v]"
    unfolding r using assms(1) by (simp add: settle_at)
  moreover have "\<not> carriesResponse [(''xhr'', XhrValue i), (''cause'', CauseValue cause)]"
    by (simp add: carriesResponse_def)
  moreover have "timers (retryIfPossible this i cause res s) = timers s"
    unfolding r by simp
  moreover have "outcome (attempts s ! i) = Outcome_None
            \<and> responseData (attempts s ! i) = Some data
            \<and> 400 \<le> status (xhr (attempts s ! i))
          \<longrightarrow> onDone this i s
                = retryIfPossible this i Status
                    (Some \<lparr> res_xhr = i, statusCode = status (xhr (attempts s ! i)), res_body = data,
                            res_headers = fst (parseHeaders (allResponseHeaders (xhr (attempts s ! i)))),
                            rawHeaders = snd (parseHeaders (allResponseHeaders (xhr (attempts s ! i)))) \<rparr>)
                    (s\<lparr> attempts := (attempts s)[i := (attempts s ! i)\<lparr> outcome := Outcome_Done \<rparr>] \<rparr>)"
    by (simp add: onDone_def Let_def)
  ultimately show ?thesis
    by (simp add: onError_def onAbort_def onTimeout_def)
qed

theorem rejection_value_witness:
  "settled (attempts (retryIfPossible client0 0 Status None
       (run client0 initial [Call_request ''POST'' ''/submit'' params0])) ! 0)
     = [Reject [(''xhr'', XhrValue 0), (''cause'', CauseValue Status)]]
   \<and> \<not> carriesResponse [(''xhr'', XhrValue 0), (''cause'', CauseValue Status)]"
proof -
  let ?s = "run client0 initial [Call_request ''POST'' ''/submit'' params0]"
  have a: "attempts ?s = [\<lparr> requestId = 1, attempt = 1, method' = ''POST'', path = ''/submit'',
            params = params0, outcome = Outcome_None,
            xhr = new_XMLHttpRequest, xhrCalls = xhrCalls (attempts ?s ! 0),
            settled = [], chained = None \<rparr>]"
    by (simp add: request_def makeRequest_def initial_def allocRequestId_def MAX_SAFE_INTEGER_def Let_def)
  have h1: "0 < length (attempts ?s)" by (subst a) simp
  have h2: "retries_of client0 (params (attempts ?s ! 0)) = 0
            \<or> \<not> isRetryable_of client0 (params (attempts ?s ! 0)) (xhr (attempts ?s ! 0)) Status None"
    by (subst a) (simp add: retries_of_def params0_def client0_def new_HttpClient_def)
  have "settled (attempts ?s ! 0) = []" by (subst a) simp
  with rejection_value [OF h1 h2] show ?thesis by simp
qed

text \<open>
  C8, as stated, fails in its last part: the promise of a request that was never sent is
  settled not only by an \<^verbatim>\<open>error\<close>, \<^verbatim>\<open>abort\<close> or \<^verbatim>\<open>timeout\<close> event. The
  listener for \<^verbatim>\<open>readystatechange\<close> is attached to every attempt, so when the transport
  of a \<^verbatim>\<open>GET\<close> announces the phase \<^verbatim>\<open>Done\<close>, the 10 ms timer runs \<^verbatim>\<open>onDone\<close>,
  which resolves the promise, although none of the three events has come.
\<close>

theorem bodyless_request_settles_on_done:
  "xhrCalls (attempts (get client0 ''/items'' params0 initial) ! 0)
     = [Xhr_addEventListener ''readystatechange'', Xhr_addEventListener ''readystatechange'',
        Xhr_addEventListener ''error'', Xhr_addEventListener ''abort'',
        Xhr_addEventListener ''timeout'', Xhr_open ''GET'' ''https://example.org:443/items'']
   \<and> settled (attempts (run client0 (get client0 ''/items'' params0 initial)
        [Dispatch 0 Event_readystatechange failed_xhr, Elapse 0]) ! 0)
     = [Resolve \<lparr> res_xhr = 0, statusCode = 0, res_body = StringBody [],
                  res_headers = [([], [])], rawHeaders = [([], [])] \<rparr>]"
  by (simp add: machine_eval header_eval get_def)

text \<open>
  C8, amended. When the options have no body (or an empty string, which is falsy), or the
  method is \<^verbatim>\<open>GET\<close> or \<^verbatim>\<open>HEAD\<close>, \<^verbatim>\<open>_makeRequest\<close> makes no \<^verbatim>\<open>send\<close> call on
  the transport of the attempt, and nothing that happens later adds a call. The attempt
  starts with an unsettled promise and without a timer, and its promise settles only if its
  transport fires an event that a handler acts on: \<^verbatim>\<open>error\<close>, \<^verbatim>\<open>abort\<close>,
  \<^verbatim>\<open>timeout\<close>, or \<^verbatim>\<open>readystatechange\<close> in the phase \<^verbatim>\<open>Done\<close>. Without such an
  event it stays unsettled whatever else happens: announcements of other phases, other
  requests, events of other attempts, timers.
\<close>

theorem bodyless_request_never_sent:
  assumes "\<not> truthy_body (body ps) \<or> m = ''GET'' \<or> m = ''HEAD''"
      and "wellformed s" and "points_inside c (length (attempts s))"
      and "list_all (\<lambda>x. \<not> terminal_event_of (length (attempts s)) x) quiet_ins"
  shows "Xhr_send b \<notin> set (xhrCalls (attempts (makeRequest this m p ps a c s) ! length (attempts s)))
       \<and> xhrCalls (attempts (run this (makeRequest this m p ps a c s) ins) ! length (attempts s))
           = xhrCalls (attempts (makeRequest this m p ps a c s) ! length (attempts s))
       \<and> settled (attempts (makeRequest this m p ps a c s) ! length (attempts s)) = []
       \<and> timers (makeRequest this m p ps a c s) = timers s
       \<and> settled (attempts (run this (makeRequest this m p ps a c s) quiet_ins) ! length (attempts s)) = []"
proof -
  let ?n = "length (attempts s)"
  let ?s = "makeRequest this m p ps a c s"
  have new: "xhrCalls (attempts ?s ! ?n) = xhrCalls (last (attempts ?s))"
    using nth_new_makeRequest [of ?n s this m p ps a c] by simp
  have "Xhr_send b \<notin> set (xhrCalls (last (attempts ?s)))"
    using assms(1) by (auto simp: makeRequest_def Let_def split: option.splits)
  then have sent: "Xhr_send b \<notin> set (xhrCalls (attempts ?s ! ?n))"
    unfolding new .
  have later: "xhrCalls (attempts (run this ?s ins) ! ?n) = xhrCalls (attempts ?s ! ?n)"
    by (rule xhrCalls_run_nth) simp
  have q: "quiet ?n ?s" using assms(2,3) by (rule quiet_new_attempt)
  have w: "wellformed ?s" using assms(2,3) by (rule wellformed_makeRequest)
  from quiet_run [OF q w assms(4), of this]
  have "settled (attempts (run this ?s quiet_ins) ! ?n) = []"
    by (simp add: quiet_def)
  moreover have "settled (attempts ?s ! ?n) = []" using q by (simp add: quiet_def)
  ultimately show ?thesis using sent later by simp
qed

theorem bodyless_request_never_sent_witness:
  "Xhr_send (StringBody ''{}'') \<notin> set (xhrCalls (attempts (get client0 ''/items'' params0 initial) ! 0))
   \<and> xhrCalls (attempts (run client0 (get client0 ''/items'' params0 initial)
        [Dispatch 0 Event_readystatechange failed_xhr, Elapse 0]) ! 0)
     = xhrCalls (attempts (get client0 ''/items'' params0 initial) ! 0)
   \<and> settled (attempts (run client0 (get client0 ''/items'' params0 initial)
        [Dispatch 0 Event_readystatechange (new_XMLHttpRequest\<lparr> readyState := Opened \<rparr>),
         Call_request ''POST'' ''/submit'' params0,
         Dispatch 1 Event_error failed_xhr]) ! 0) = []"
proof -
  have h1: "\<not> truthy_body (body params0) \<or> ''GET'' = ''GET'' \<or> ''GET'' = ''HEAD''" by simp
  have h2: "wellformed initial" by (rule wellformed_initial)
  have h3: "points_inside None (length (attempts initial))" by (simp add: points_inside_def)
  have h4: "list_all (\<lambda>x. \<not> terminal_event_of (length (attempts initial)) x)
              [Dispatch 0 Event_readystatechange (new_XMLHttpRequest\<lparr> readyState := Opened \<rparr>),
               Call_request ''POST'' ''/submit'' params0,
               Dispatch 1 Event_error failed_xhr]"
    by (simp add: initial_def new_XMLHttpRequest_def)
  have n: "length (attempts initial) = 0" by (simp add: initial_def)
  from bodyless_request_never_sent [OF h1 h2 h3 h4, of "StringBody ''{}''" client0 "''/items''" None
      "[Dispatch 0 Event_readystatechange failed_xhr, Elapse 0]"]
  show ?thesis unfolding n by (simp add: get_def)
qed

end
